theory Spec2Isabelle
  imports Complex_Main "HOL-Library.AList"
begin

section \<open>The batching Kafka producer (rdkafka/producer.ts)\<close>

text \<open>
  A shallow embedding of the class \<open>RdkafkaProducer\<close>. The instance fields become a record
  that every operation takes and returns. The three collaborators the class talks to are
  part of the same record, so that their observable behaviour can be stated:
  \<^item> the heap of \<open>Deferred\<close> objects (a list of promise states, a handle is an index);
  \<^item> Node's queue of callbacks scheduled with \<open>setImmediate\<close>;
  \<^item> the log of \<open>produce\<close> calls received by the broker client.

  Numbers. A message length, a boxcar size and the pending counter are non-negative integers
  (\<open>nat\<close>); the configured maximum message size and its product with 0.75 are exact
  rationals (\<open>rat\<close>). JavaScript computes them as IEEE doubles; the two agree as long as
  the counters stay below \<open>2^53\<close> and the product with 0.75 is exact.

  Strings. A message is a \<open>string\<close>; one element stands for one UTF-16 code unit, which is
  what \<open>message.length\<close> counts.
\<close>

subsection \<open>Data\<close>

text \<open>
  Modelled from the spec: the class \<open>Deferred\<close> of the package \<open>@prague/utils\<close> is not part
  of the source file. The spec calls it a completion handle, "a single future/promise ...
  resolves or rejects exactly once": a promise is pending until the first \<open>resolve\<close> or
  \<open>reject\<close>, and later calls change nothing.
\<close>

datatype promise = Pending | Fulfilled | Rejected string

definition resolve :: "nat \<Rightarrow> promise list \<Rightarrow> promise list" where
  "resolve h ds = (if h < length ds \<and> ds ! h = Pending then ds[h := Fulfilled] else ds)"

definition reject :: "string \<Rightarrow> nat \<Rightarrow> promise list \<Rightarrow> promise list" where
  "reject err h ds = (if h < length ds \<and> ds ! h = Pending then ds[h := Rejected err] else ds)"

text \<open>\<open>IPendingBoxcar\<close>, with the fields of the object literal in \<open>send\<close>.\<close>

record IPendingBoxcar =
  deferred :: nat
  documentId :: string
  messages_b :: "string list"
  size_b :: nat
  tenantId :: string

text \<open>
  \<open>IBoxcarMessage\<close>, the object that \<open>sendPendingMessages\<close> serialises. The payload of a
  produced record is \<open>Buffer.from(JSON.stringify(boxcarMessage))\<close>; the model keeps the
  object itself, of which the JSON text is a faithful image.
\<close>

record IBoxcarMessage =
  contents :: "string list"
  documentId_m :: string
  tenantId_m :: string
  type_m :: string

text \<open>
  Modelled from the spec: the constant \<open>BoxcarType\<close> of \<open>@prague/routerlicious/dist/core\<close>
  is not part of the source file. The spec gives the record as
  \<open>{type: "boxcar", tenantId, documentId, contents}\<close>.
\<close>

definition BoxcarType :: string where
  "BoxcarType = ''boxcar''"

text \<open>
  One call of \<open>producer.produce(topic, partition, message, key, timestamp, opaque)\<close>. The
  partition is always \<open>null\<close> (\<open>None\<close>). The timestamp \<open>Date.now()\<close> is an input of the
  environment that no operation reads back; it is left out.
\<close>

record produce_call =
  p_topic :: string
  p_partition :: "nat option"
  p_message :: IBoxcarMessage
  p_key :: string
  p_opaque :: nat

text \<open>
  The producer. \<open>messages\<close> is a JavaScript \<open>Map\<close>, which iterates in the order in which
  the keys were first set: an association list with \<open>AList.update\<close> (replace in place, or
  append at the end) is exactly that.
\<close>

record producer =
  messages :: "(string \<times> IPendingBoxcar list) list"
  connected :: bool
  sendPending :: "nat option"
  pendingMessageCount :: nat
  topic :: string
  maxMessageSize :: rat
  deferreds :: "promise list"
  immediates :: "nat list"
  nextImmediate :: nat
  produced :: "produce_call list"

text \<open>\<open>Number.MAX_VALUE\<close>, the largest finite double, is the integer \<open>(2^53 - 1) * 2^971\<close>.\<close>

definition MaxBatchSize :: nat where
  "MaxBatchSize = (2 ^ 53 - 1) * 2 ^ 971"

subsection \<open>The Map operations used by the class\<close>

definition Map_has :: "('k \<times> 'v) list \<Rightarrow> 'k \<Rightarrow> bool" where
  "Map_has m k = (k \<in> set (map fst m))"

definition Map_set :: "('k \<times> 'v) list \<Rightarrow> 'k \<Rightarrow> 'v \<Rightarrow> ('k \<times> 'v) list" where
  "Map_set m k v = AList.update k v m"

text \<open>
  \<open>Map.get\<close> is \<open>undefined\<close> on a missing key. \<open>send\<close> reads a key only after making sure
  that it is present, where the model's answer \<open>[]\<close> for a missing key is never used.
\<close>

definition Map_get :: "('k \<times> 'v list) list \<Rightarrow> 'k \<Rightarrow> 'v list" where
  "Map_get m k = (case map_of m k of None \<Rightarrow> [] | Some v \<Rightarrow> v)"

subsection \<open>Operations\<close>

text \<open>The constructor (lines 15-16): the effective limit is 75 percent of the configured one.\<close>

definition RdkafkaProducer :: "string \<Rightarrow> string \<Rightarrow> rat \<Rightarrow> producer" where
  "RdkafkaProducer endpoint topic' maxMessageSize' =
     \<lparr> messages = [], connected = False, sendPending = None, pendingMessageCount = 0,
       topic = topic', maxMessageSize = maxMessageSize' * (3 / 4),
       deferreds = [], immediates = [], nextImmediate = 0, produced = [] \<rparr>"

text \<open>\<open>producer.produce\<close>: the broker client records the call.\<close>

definition produce ::
  "string \<Rightarrow> nat option \<Rightarrow> IBoxcarMessage \<Rightarrow> string \<Rightarrow> nat \<Rightarrow> producer \<Rightarrow> producer" where
  "produce tp part msg k opq s =
     s\<lparr>produced := produced s @
        [\<lparr>p_topic = tp, p_partition = part, p_message = msg, p_key = k, p_opaque = opq\<rparr>]\<rparr>"

text \<open>The inner loop of \<open>sendPendingMessages\<close> (lines 143-158), over one key's boxcars.\<close>

fun produce_boxcars :: "IPendingBoxcar list \<Rightarrow> producer \<Rightarrow> producer" where
  "produce_boxcars [] s = s"
| "produce_boxcars (boxcar # rest) s =
     (let boxcarMessage = \<lparr> contents = messages_b boxcar, documentId_m = documentId boxcar,
                             tenantId_m = tenantId boxcar, type_m = BoxcarType \<rparr>
      in produce_boxcars rest
           (produce (topic s) None boxcarMessage (documentId boxcar) (deferred boxcar) s))"

text \<open>The outer loop (lines 142-159), over the entries of the map in iteration order.\<close>

fun produce_entries :: "(string \<times> IPendingBoxcar list) list \<Rightarrow> producer \<Rightarrow> producer" where
  "produce_entries [] s = s"
| "produce_entries ((k, value) # rest) s = produce_entries rest (produce_boxcars value s)"

definition sendPendingMessages :: "producer \<Rightarrow> producer" where
  "sendPendingMessages s =
     (let s1 = produce_entries (messages s) s
      in s1\<lparr>pendingMessageCount := 0, messages := []\<rparr>)"

text \<open>\<open>clearImmediate(h)\<close>: takes the callback out of Node's queue; nothing for \<open>undefined\<close>.\<close>

definition clearImmediate :: "nat option \<Rightarrow> producer \<Rightarrow> producer" where
  "clearImmediate h s =
     (case h of None \<Rightarrow> s | Some i \<Rightarrow> s\<lparr>immediates := removeAll i (immediates s)\<rparr>)"

text \<open>\<open>requestSend\<close> (lines 112-136).\<close>

definition requestSend :: "producer \<Rightarrow> producer" where
  "requestSend s =
     (if \<not> connected s then s
      else if MaxBatchSize \<le> pendingMessageCount s then
        sendPendingMessages ((clearImmediate (sendPending s) s)\<lparr>sendPending := None\<rparr>)
      else if sendPending s \<noteq> None then s
      else s\<lparr>immediates := immediates s @ [nextImmediate s],
             sendPending := Some (nextImmediate s),
             nextImmediate := Suc (nextImmediate s)\<rparr>)"

text \<open>
  The callback given to \<open>setImmediate\<close> (lines 132-135), run by Node's event loop: the
  oldest scheduled callback leaves the queue and runs. With nothing scheduled nothing runs.
\<close>

definition runImmediate :: "producer \<Rightarrow> producer" where
  "runImmediate s =
     (case immediates s of
        [] \<Rightarrow> s
      | h # rest \<Rightarrow> (sendPendingMessages (s\<lparr>immediates := rest\<rparr>))\<lparr>sendPending := None\<rparr>)"

text \<open>The key of a stream (line 71): tenant id, a slash, document id.\<close>

definition streamKey :: "string \<Rightarrow> string \<Rightarrow> string" where
  "streamKey tenantId' documentId' = tenantId' @ ''/'' @ documentId'"

text \<open>
  \<open>send\<close> (lines 66-100). The result is the rejection reason or the handle of the deferred
  whose promise is returned, together with the state after the call.
\<close>

definition send :: "string \<Rightarrow> string \<Rightarrow> string \<Rightarrow> producer \<Rightarrow> (string + nat) \<times> producer" where
  "send message tenantId' documentId' s =
     (if maxMessageSize s \<le> of_nat (length message) then (Inl ''Message too large'', s)
      else
        let key = streamKey tenantId' documentId';
            s1 = (if \<not> Map_has (messages s) key
                  then s\<lparr>messages := Map_set (messages s) key []\<rparr> else s);
            boxcars = Map_get (messages s1) key;
            fresh = (boxcars = [] \<or>
                     maxMessageSize s1 < of_nat (size_b (last boxcars) + length message));
            boxcars1 = (if fresh
                  then boxcars @ [\<lparr> deferred = length (deferreds s1), documentId = documentId',
                                    messages_b = [], size_b = 0, tenantId = tenantId' \<rparr>]
                  else boxcars);
            s2 = (if fresh then s1\<lparr>deferreds := deferreds s1 @ [Pending]\<rparr> else s1);
            boxcar = last boxcars1;
            boxcar1 = boxcar\<lparr>messages_b := messages_b boxcar @ [message],
                             size_b := size_b boxcar + length message\<rparr>;
            s3 = s2\<lparr>messages := Map_set (messages s2) key (butlast boxcars1 @ [boxcar1]),
                    pendingMessageCount := Suc (pendingMessageCount s2)\<rparr>;
            s4 = requestSend s3
        in (Inr (deferred boxcar1), s4))"

text \<open>
  The callback of \<open>producer.connect\<close> (lines 50-54). \<open>error\<close> is \<open>None\<close> for \<open>null\<close>; both
  arguments are only logged.
\<close>

definition connectCallback :: "string option \<Rightarrow> string \<Rightarrow> producer \<Rightarrow> producer" where
  "connectCallback error data s = requestSend (s\<lparr>connected := True\<rparr>)"

text \<open>
  The handler of \<open>delivery-report\<close> (lines 56-63). \<open>err\<close> is \<open>None\<close> for \<open>null\<close>, an error
  object is truthy; \<open>opaque\<close> is the handle that was given to \<open>produce\<close>.
\<close>

definition deliveryReport :: "string option \<Rightarrow> nat \<Rightarrow> producer \<Rightarrow> producer" where
  "deliveryReport err opaque s =
     (case err of
        Some e \<Rightarrow> s\<lparr>deferreds := reject e opaque (deferreds s)\<rparr>
      | None \<Rightarrow> s\<lparr>deferreds := resolve opaque (deferreds s)\<rparr>)"

subsection \<open>Runs\<close>

text \<open>
  Everything that happens to a producer is one of four events: a caller invokes \<open>send\<close>,
  the event loop runs a scheduled immediate, the broker client calls back from \<open>connect\<close>,
  or it emits a delivery report. \<open>close\<close> only asks the client to disconnect and touches no
  field. A run applies events from left to right.
\<close>

datatype event =
  Send string string string
| Immediate
| Connected "string option" string
| Report "string option" nat

fun step :: "event \<Rightarrow> producer \<Rightarrow> producer" where
  "step (Send message tenantId' documentId') s = snd (send message tenantId' documentId' s)"
| "step Immediate s = runImmediate s"
| "step (Connected error data) s = connectCallback error data s"
| "step (Report err opaque) s = deliveryReport err opaque s"

definition run :: "event list \<Rightarrow> producer \<Rightarrow> producer" where
  "run evs s = fold step evs s"

subsection \<open>Notions used to state the properties\<close>

text \<open>
  None of the definitions below is code of the producer. They name what the properties
  talk about: the record a boxcar is sent as, the state \<open>send\<close> leaves behind before it
  calls \<open>requestSend\<close>, the handle it returns, and the invariants of the reachable states.
\<close>

text \<open>The record that the spec asks for one boxcar: keyed by the document id, carrying the
  boxcar's handle.\<close>

definition boxcar_record :: "string \<Rightarrow> IPendingBoxcar \<Rightarrow> produce_call" where
  "boxcar_record tp b =
     \<lparr> p_topic = tp, p_partition = None,
       p_message = \<lparr> contents = messages_b b, documentId_m = documentId b,
                     tenantId_m = tenantId b, type_m = ''boxcar'' \<rparr>,
       p_key = documentId b, p_opaque = deferred b \<rparr>"

definition all_boxcars :: "producer \<Rightarrow> IPendingBoxcar list" where
  "all_boxcars s = concat (map snd (messages s))"

text \<open>Lines 71-94 of \<open>send\<close> in closed form: the state once the message is in its boxcar.\<close>

definition enqueue :: "string \<Rightarrow> string \<Rightarrow> string \<Rightarrow> producer \<Rightarrow> producer" where
  "enqueue m t d s =
     (let k = streamKey t d; bs = Map_get (messages s) k
      in if bs = [] \<or> maxMessageSize s < of_nat (size_b (last bs) + length m)
         then s\<lparr>deferreds := deferreds s @ [Pending],
                 messages := AList.update k
                   (bs @ [\<lparr> deferred = length (deferreds s), documentId = d,
                            messages_b = [m], size_b = length m, tenantId = t \<rparr>]) (messages s),
                 pendingMessageCount := Suc (pendingMessageCount s)\<rparr>
         else s\<lparr>messages := AList.update k
                   (butlast bs @ [(last bs)\<lparr>messages_b := messages_b (last bs) @ [m],
                                             size_b := size_b (last bs) + length m\<rparr>])
                   (messages s),
                 pendingMessageCount := Suc (pendingMessageCount s)\<rparr>)"

definition handle_of :: "string \<Rightarrow> string \<Rightarrow> string \<Rightarrow> producer \<Rightarrow> nat" where
  "handle_of m t d s =
     (let bs = Map_get (messages s) (streamKey t d)
      in if bs = [] \<or> maxMessageSize s < of_nat (size_b (last bs) + length m)
         then length (deferreds s) else deferred (last bs))"

text \<open>What holds of every queued boxcar: it sits under its own key, is not empty, its size is
  the sum of the lengths of its messages and within the limit, and its handle exists.\<close>

definition boxcar_ok :: "rat \<Rightarrow> nat \<Rightarrow> string \<Rightarrow> IPendingBoxcar \<Rightarrow> bool" where
  "boxcar_ok limit n k b \<longleftrightarrow>
     streamKey (tenantId b) (documentId b) = k \<and> messages_b b \<noteq> [] \<and>
     size_b b = sum_list (map length (messages_b b)) \<and> of_nat (size_b b) \<le> limit \<and>
     deferred b < n"

definition queues_ok :: "producer \<Rightarrow> bool" where
  "queues_ok s \<longleftrightarrow>
     distinct (map fst (messages s)) \<and>
     (\<forall>(k, bs) \<in> set (messages s).
        bs \<noteq> [] \<and> (\<forall>b \<in> set bs. boxcar_ok (maxMessageSize s) (length (deferreds s)) k b))"

definition queued :: "IPendingBoxcar list \<Rightarrow> nat" where
  "queued bs = length (concat (map messages_b bs))"

definition count_ok :: "producer \<Rightarrow> bool" where
  "count_ok s \<longleftrightarrow> pendingMessageCount s = queued (all_boxcars s)"

definition sched_ok :: "producer \<Rightarrow> bool" where
  "sched_ok s \<longleftrightarrow> immediates s = (case sendPending s of None \<Rightarrow> [] | Some h \<Rightarrow> [h])"

definition log_ok :: "producer \<Rightarrow> bool" where
  "log_ok s \<longleftrightarrow> (\<forall>r \<in> set (produced s). p_opaque r < length (deferreds s))"

definition producer_inv :: "producer \<Rightarrow> bool" where
  "producer_inv s \<longleftrightarrow> queues_ok s \<and> count_ok s \<and> sched_ok s \<and> log_ok s"

text \<open>The counter and the shape of the boxcars, without the rest of the invariant.\<close>

definition boxcar_shape :: "IPendingBoxcar \<Rightarrow> bool" where
  "boxcar_shape b \<longleftrightarrow>
     messages_b b \<noteq> [] \<and> size_b b = sum_list (map length (messages_b b))"

definition counter_inv :: "producer \<Rightarrow> bool" where
  "counter_inv s \<longleftrightarrow>
     pendingMessageCount s = length (concat (map messages_b (concat (map snd (messages s))))) \<and>
     (\<forall>b \<in> set (concat (map snd (messages s))). boxcar_shape b)"

text \<open>
  The stream a record belongs to, the (message, handle) pairs a record or a boxcar stands
  for, and all pairs of one key: first those already produced, then those still queued.
\<close>

definition record_key :: "produce_call \<Rightarrow> string" where
  "record_key r = streamKey (tenantId_m (p_message r)) (documentId_m (p_message r))"

definition record_pairs :: "produce_call \<Rightarrow> (string \<times> nat) list" where
  "record_pairs r = map (\<lambda>m. (m, p_opaque r)) (contents (p_message r))"

definition boxcar_pairs :: "IPendingBoxcar \<Rightarrow> (string \<times> nat) list" where
  "boxcar_pairs b = map (\<lambda>m. (m, deferred b)) (messages_b b)"

definition view :: "string \<Rightarrow> producer \<Rightarrow> (string \<times> nat) list" where
  "view k s =
     concat (map record_pairs (filter (\<lambda>r. record_key r = k) (produced s))) @
     concat (map boxcar_pairs (Map_get (messages s) k))"

text \<open>What the callers of one key saw during a run: each message that \<open>send\<close> accepted, with
  the handle it returned.\<close>

fun returned :: "string \<Rightarrow> event list \<Rightarrow> producer \<Rightarrow> (string \<times> nat) list" where
  "returned k [] s = []"
| "returned k (Send m t d # evs) s =
     (case fst (send m t d s) of
        Inr h \<Rightarrow> if streamKey t d = k then [(m, h)] else []
      | Inl err \<Rightarrow> []) @ returned k evs (step (Send m t d) s)"
| "returned k (e # evs) s = returned k evs (step e s)"


section \<open>Basic facts\<close>

subsection \<open>The flush and the map in closed form\<close>

lemma produce_boxcars_eq:
  "produce_boxcars bs s = s\<lparr>produced := produced s @ map (boxcar_record (topic s)) bs\<rparr>"
  by (induction bs arbitrary: s) (simp_all add: produce_def boxcar_record_def BoxcarType_def)

lemma produce_entries_eq:
  "produce_entries m s =
     s\<lparr>produced := produced s @ map (boxcar_record (topic s)) (concat (map snd m))\<rparr>"
  by (induction m arbitrary: s) (auto simp: produce_boxcars_eq)

lemma sendPendingMessages_eq:
  "sendPendingMessages s =
     s\<lparr>produced := produced s @ map (boxcar_record (topic s)) (all_boxcars s),
       pendingMessageCount := 0, messages := []\<rparr>"
  by (simp add: sendPendingMessages_def produce_entries_eq all_boxcars_def)

lemma Map_get_absent: "\<not> Map_has m k \<Longrightarrow> Map_get m k = []"
proof -
  assume "\<not> Map_has m k"
  hence "map_of m k = None" by (simp add: Map_has_def map_of_eq_None_iff)
  thus ?thesis by (simp add: Map_get_def)
qed

lemma Map_get_update: "Map_get (AList.update k v m) k' = (if k' = k then v else Map_get m k')"
  by (simp add: Map_get_def update_conv')

lemma in_update_iff:
  assumes "distinct (map fst m)"
  shows "(k', v') \<in> set (AList.update k v m) \<longleftrightarrow>
         (k' = k \<and> v' = v) \<or> (k' \<noteq> k \<and> (k', v') \<in> set m)"
proof -
  have d: "distinct (map fst (AList.update k v m))" using assms by (rule distinct_update)
  have "(k', v') \<in> set (AList.update k v m) \<longleftrightarrow> map_of (AList.update k v m) k' = Some v'"
    using d by simp
  also have "\<dots> \<longleftrightarrow> (k' = k \<and> v' = v) \<or> (k' \<noteq> k \<and> map_of m k' = Some v')"
    by (auto simp: update_conv')
  also have "\<dots> \<longleftrightarrow> (k' = k \<and> v' = v) \<or> (k' \<noteq> k \<and> (k', v') \<in> set m)"
    using assms by simp
  finally show ?thesis .
qed

lemma Map_get_in:
  "distinct (map fst m) \<Longrightarrow> Map_get m k \<noteq> [] \<Longrightarrow> (k, Map_get m k) \<in> set m"
  by (auto simp: Map_get_def split: option.splits)

lemma sum_update:
  assumes "g [] = 0" and "g v = g (Map_get m k) + c"
  shows "sum_list (map (g \<circ> snd) (AList.update k v m)) = sum_list (map (g \<circ> snd) m) + (c::nat)"
  using assms(2)
proof (induction m)
  case Nil
  then show ?case using assms(1) by (simp add: Map_get_def)
next
  case (Cons p m)
  then show ?case by (cases p) (auto simp: Map_get_def)
qed

subsection \<open>\<open>send\<close> is a size check, then \<open>enqueue\<close>, then \<open>requestSend\<close>\<close>

lemma send_reject:
  "maxMessageSize s \<le> of_nat (length m) \<Longrightarrow> send m t d s = (Inl ''Message too large'', s)"
  by (simp add: send_def)

lemma send_accept:
  assumes "\<not> maxMessageSize s \<le> of_nat (length m)"
  shows "send m t d s = (Inr (handle_of m t d s), requestSend (enqueue m t d s))"
proof (cases "Map_has (messages s) (streamKey t d)")
  case True
  then show ?thesis using assms
    by (simp add: send_def enqueue_def handle_of_def Let_def Map_set_def)
next
  case False
  then show ?thesis using assms
    by (simp add: send_def enqueue_def handle_of_def Let_def Map_set_def Map_get_absent Map_get_update)
qed

lemma enqueue_fields:
  "maxMessageSize (enqueue m t d s) = maxMessageSize s"
  "immediates (enqueue m t d s) = immediates s"
  "sendPending (enqueue m t d s) = sendPending s"
  "connected (enqueue m t d s) = connected s"
  "produced (enqueue m t d s) = produced s"
  "topic (enqueue m t d s) = topic s"
  "nextImmediate (enqueue m t d s) = nextImmediate s"
  "pendingMessageCount (enqueue m t d s) = Suc (pendingMessageCount s)"
  by (simp_all add: enqueue_def Let_def)

lemma enqueue_messages:
  "messages (enqueue m t d s) =
     AList.update (streamKey t d) (Map_get (messages (enqueue m t d s)) (streamKey t d)) (messages s)"
  by (simp add: enqueue_def Let_def Map_get_update)

lemma enqueue_queue:
  "Map_get (messages (enqueue m t d s)) k =
     (if k = streamKey t d then
        (let bs = Map_get (messages s) k
         in if bs = [] \<or> maxMessageSize s < of_nat (size_b (last bs) + length m)
            then bs @ [\<lparr> deferred = length (deferreds s), documentId = d,
                          messages_b = [m], size_b = length m, tenantId = t \<rparr>]
            else butlast bs @ [(last bs)\<lparr>messages_b := messages_b (last bs) @ [m],
                                          size_b := size_b (last bs) + length m\<rparr>])
      else Map_get (messages s) k)"
  by (simp add: enqueue_def Let_def Map_get_update)

lemma enqueue_deferreds:
  "deferreds (enqueue m t d s) =
     (let bs = Map_get (messages s) (streamKey t d)
      in if bs = [] \<or> maxMessageSize s < of_nat (size_b (last bs) + length m)
         then deferreds s @ [Pending] else deferreds s)"
  by (simp add: enqueue_def Let_def)

lemma enqueue_deferreds_length: "length (deferreds s) \<le> length (deferreds (enqueue m t d s))"
  by (simp add: enqueue_deferreds Let_def)

lemma enqueue_queue_nonempty: "Map_get (messages (enqueue m t d s)) (streamKey t d) \<noteq> []"
  by (simp add: enqueue_queue Let_def)

subsection \<open>The batch ceiling is out of reach of small counters\<close>

lemma MaxBatchSize_big: "n < 2 ^ 53 \<Longrightarrow> n < MaxBatchSize"
proof -
  assume a: "n < 2 ^ 53"
  have "(2::nat) ^ 53 \<le> (2 ^ 53 - 1) * 2 ^ 971" by simp
  thus ?thesis using a by (simp add: MaxBatchSize_def)
qed

lemma MaxBatchSize_not_le: "n < 2 ^ 53 \<Longrightarrow> (MaxBatchSize \<le> n) = False"
  using MaxBatchSize_big[of n] by simp

lemma MaxBatchSize_not_0: "(MaxBatchSize = 0) = False"
  using MaxBatchSize_big[of 0] by simp

subsection \<open>Runs\<close>

lemma run_snoc: "run (evs @ [e]) s = step e (run evs s)"
  by (simp add: run_def)

lemma run_Cons: "run (e # evs) s = run evs (step e s)"
  by (simp add: run_def)




subsection \<open>The invariant is kept by every operation\<close>

lemma boxcar_ok_mono: "boxcar_ok l n k b \<Longrightarrow> n \<le> n' \<Longrightarrow> boxcar_ok l n' k b"
  by (simp add: boxcar_ok_def)

lemma enqueue_queue_ok:
  assumes acc: "\<not> maxMessageSize s \<le> of_nat (length m)"
    and old: "\<forall>b \<in> set (Map_get (messages s) (streamKey t d)).
                boxcar_ok (maxMessageSize s) (length (deferreds s)) (streamKey t d) b"
  shows "\<forall>b \<in> set (Map_get (messages (enqueue m t d s)) (streamKey t d)).
           boxcar_ok (maxMessageSize s) (length (deferreds (enqueue m t d s))) (streamKey t d) b"
proof (cases "Map_get (messages s) (streamKey t d) = [] \<or>
    maxMessageSize s < of_nat (size_b (last (Map_get (messages s) (streamKey t d))) + length m)")
  case True
  then show ?thesis using acc old
    by (auto simp: enqueue_queue enqueue_deferreds Let_def boxcar_ok_def)
next
  case False
  let ?bs = "Map_get (messages s) (streamKey t d)"
  from False have ne: "?bs \<noteq> []" and fit: "\<not> maxMessageSize s < of_nat (size_b (last ?bs) + length m)"
    by auto
  have lastok: "boxcar_ok (maxMessageSize s) (length (deferreds s)) (streamKey t d) (last ?bs)"
    using old ne by simp
  let ?b' = "(last ?bs)\<lparr>messages_b := messages_b (last ?bs) @ [m],
                         size_b := size_b (last ?bs) + length m\<rparr>"
  have q: "Map_get (messages (enqueue m t d s)) (streamKey t d) = butlast ?bs @ [?b']"
    using False by (simp add: enqueue_queue Let_def)
  have ds: "deferreds (enqueue m t d s) = deferreds s"
    using False by (simp add: enqueue_deferreds Let_def)
  have new: "boxcar_ok (maxMessageSize s) (length (deferreds s)) (streamKey t d) ?b'"
    using lastok fit by (simp add: boxcar_ok_def)
  have "\<And>b. b \<in> set (butlast ?bs) \<Longrightarrow>
          boxcar_ok (maxMessageSize s) (length (deferreds s)) (streamKey t d) b"
    using old by (blast dest: in_set_butlastD)
  thus ?thesis using new by (auto simp: q ds)
qed

lemma queues_ok_enqueue:
  assumes inv: "queues_ok s" and acc: "\<not> maxMessageSize s \<le> of_nat (length m)"
  shows "queues_ok (enqueue m t d s)"
proof -
  let ?k = "streamKey t d" and ?s' = "enqueue m t d s"
  have dist: "distinct (map fst (messages s))" using inv by (simp add: queues_ok_def)
  have old: "\<forall>b \<in> set (Map_get (messages s) ?k).
                boxcar_ok (maxMessageSize s) (length (deferreds s)) ?k b"
  proof (cases "Map_get (messages s) ?k = []")
    case True then show ?thesis by simp
  next
    case False
    hence "(?k, Map_get (messages s) ?k) \<in> set (messages s)" using dist by (rule Map_get_in[rotated])
    thus ?thesis using inv by (auto simp: queues_ok_def)
  qed
  have new: "\<forall>b \<in> set (Map_get (messages ?s') ?k).
                boxcar_ok (maxMessageSize s) (length (deferreds ?s')) ?k b"
    using acc old by (rule enqueue_queue_ok)
  have d': "distinct (map fst (messages ?s'))"
    by (subst enqueue_messages) (rule distinct_update[OF dist])
  have "\<And>k bs. (k, bs) \<in> set (messages ?s') \<Longrightarrow>
          bs \<noteq> [] \<and> (\<forall>b \<in> set bs. boxcar_ok (maxMessageSize ?s') (length (deferreds ?s')) k b)"
  proof -
    fix k bs assume "(k, bs) \<in> set (messages ?s')"
    hence "(k, bs) \<in> set (AList.update ?k (Map_get (messages ?s') ?k) (messages s))"
      by (subst (asm) enqueue_messages)
    hence c: "(k = ?k \<and> bs = Map_get (messages ?s') ?k) \<or> (k \<noteq> ?k \<and> (k, bs) \<in> set (messages s))"
      by (simp add: in_update_iff[OF dist])
    show "bs \<noteq> [] \<and> (\<forall>b \<in> set bs. boxcar_ok (maxMessageSize ?s') (length (deferreds ?s')) k b)"
    proof (cases "k = ?k")
      case True
      then show ?thesis using c new enqueue_queue_nonempty[of m t d s]
        by (simp add: enqueue_fields)
    next
      case False
      hence "(k, bs) \<in> set (messages s)" using c by simp
      hence "bs \<noteq> [] \<and> (\<forall>b \<in> set bs. boxcar_ok (maxMessageSize s) (length (deferreds s)) k b)"
        using inv by (auto simp: queues_ok_def)
      then show ?thesis
        using boxcar_ok_mono[OF _ enqueue_deferreds_length[of s m t d]]
        by (auto simp: enqueue_fields)
    qed
  qed
  thus ?thesis using d' by (auto simp: queues_ok_def)
qed

lemma queued_append: "queued (xs @ ys) = queued xs + queued ys"
  by (simp add: queued_def)

lemma queued_concat: "queued (concat bss) = sum_list (map queued bss)"
  by (induction bss) (simp_all add: queued_append, simp add: queued_def)

lemma queued_all: "queued (all_boxcars s) = sum_list (map (queued \<circ> snd) (messages s))"
  by (simp add: all_boxcars_def queued_concat comp_def)

lemma queued_enqueue_queue:
  "queued (Map_get (messages (enqueue m t d s)) (streamKey t d)) =
     queued (Map_get (messages s) (streamKey t d)) + 1"
proof (cases "Map_get (messages s) (streamKey t d) = [] \<or>
    maxMessageSize s < of_nat (size_b (last (Map_get (messages s) (streamKey t d))) + length m)")
  case True
  then show ?thesis by (auto simp: enqueue_queue Let_def queued_def)
next
  case False
  let ?bs = "Map_get (messages s) (streamKey t d)"
  from False have ne: "?bs \<noteq> []" by auto
  have "queued ?bs = queued (butlast ?bs @ [last ?bs])" using ne by simp
  also have "\<dots> = queued (butlast ?bs) + length (messages_b (last ?bs))"
    by (simp only: queued_append) (simp add: queued_def)
  finally have a: "queued ?bs = queued (butlast ?bs) + length (messages_b (last ?bs))" .
  have "queued (Map_get (messages (enqueue m t d s)) (streamKey t d)) =
          queued (butlast ?bs) + (length (messages_b (last ?bs)) + 1)"
    using False by (simp add: enqueue_queue Let_def queued_append) (simp add: queued_def)
  thus ?thesis using a by simp
qed

lemma count_ok_enqueue:
  assumes "count_ok s"
  shows "count_ok (enqueue m t d s)"
proof -
  have "queued (all_boxcars (enqueue m t d s)) =
          sum_list (map (queued \<circ> snd)
            (AList.update (streamKey t d) (Map_get (messages (enqueue m t d s)) (streamKey t d))
               (messages s)))"
    by (subst queued_all, subst enqueue_messages) (rule refl)
  also have "\<dots> = sum_list (map (queued \<circ> snd) (messages s)) + 1"
    by (rule sum_update) (simp_all add: queued_def queued_enqueue_queue[unfolded queued_def])
  finally show ?thesis using assms by (simp add: count_ok_def enqueue_fields queued_all)
qed

lemma sched_ok_enqueue: "sched_ok (enqueue m t d s) = sched_ok s"
  by (simp add: sched_ok_def enqueue_fields)

lemma log_ok_enqueue: "log_ok s \<Longrightarrow> log_ok (enqueue m t d s)"
proof -
  assume a: "log_ok s"
  have "\<And>r. r \<in> set (produced s) \<Longrightarrow> p_opaque r < length (deferreds (enqueue m t d s))"
  proof -
    fix r assume "r \<in> set (produced s)"
    hence "p_opaque r < length (deferreds s)" using a by (simp add: log_ok_def)
    thus "p_opaque r < length (deferreds (enqueue m t d s))"
      using enqueue_deferreds_length[of s m t d] by simp
  qed
  thus ?thesis by (simp add: log_ok_def enqueue_fields)
qed

lemma inv_enqueue:
  assumes "producer_inv s" and "\<not> maxMessageSize s \<le> of_nat (length m)"
  shows "producer_inv (enqueue m t d s)"
  using assms
  by (simp add: producer_inv_def queues_ok_enqueue count_ok_enqueue sched_ok_enqueue
        log_ok_enqueue)

lemma queued_handles:
  assumes "queues_ok s" and "b \<in> set (all_boxcars s)"
  shows "deferred b < length (deferreds s)"
proof -
  obtain k bs where "(k, bs) \<in> set (messages s)" and "b \<in> set bs"
    using assms(2) by (auto simp: all_boxcars_def)
  thus ?thesis using assms(1) by (auto simp: queues_ok_def boxcar_ok_def)
qed

lemma inv_flush:
  assumes "producer_inv s"
  shows "producer_inv (sendPendingMessages s)"
proof -
  have q: "queues_ok s" and i: "sched_ok s" and l: "log_ok s"
    using assms by (simp_all add: producer_inv_def)
  have "queues_ok (sendPendingMessages s)" "count_ok (sendPendingMessages s)"
    by (simp_all add: sendPendingMessages_eq queues_ok_def count_ok_def all_boxcars_def
          queued_def)
  moreover have "sched_ok (sendPendingMessages s)"
    using i by (simp add: sendPendingMessages_eq sched_ok_def)
  moreover have "log_ok (sendPendingMessages s)"
    using l queued_handles[OF q]
    by (auto simp: sendPendingMessages_eq log_ok_def boxcar_record_def)
  ultimately show ?thesis by (simp add: producer_inv_def)
qed

lemma inv_cong:
  assumes "messages s' = messages s" "maxMessageSize s' = maxMessageSize s"
    "deferreds s' = deferreds s" "pendingMessageCount s' = pendingMessageCount s"
    "produced s' = produced s" "sched_ok s'" "producer_inv s"
  shows "producer_inv s'"
  using assms by (simp add: producer_inv_def queues_ok_def count_ok_def log_ok_def all_boxcars_def)

lemma inv_requestSend:
  assumes "producer_inv s"
  shows "producer_inv (requestSend s)"
proof -
  have i: "sched_ok s" using assms by (simp add: producer_inv_def)
  show ?thesis
  proof (cases "connected s \<and> MaxBatchSize \<le> pendingMessageCount s")
    case True
    let ?s1 = "(clearImmediate (sendPending s) s)\<lparr>sendPending := None\<rparr>"
    have "sched_ok ?s1"
      using i by (auto simp: sched_ok_def clearImmediate_def split: option.splits)
    hence "producer_inv ?s1"
      by (rule inv_cong[rotated 5, OF _ assms]) (simp_all add: clearImmediate_def split: option.splits)
    hence "producer_inv (sendPendingMessages ?s1)" by (rule inv_flush)
    thus ?thesis using True by (simp add: requestSend_def)
  next
    case False
    show ?thesis
    proof (cases "connected s \<and> sendPending s = None")
      case True
      let ?s1 = "s\<lparr>immediates := immediates s @ [nextImmediate s],
                    sendPending := Some (nextImmediate s),
                    nextImmediate := Suc (nextImmediate s)\<rparr>"
      have "sched_ok ?s1" using i True by (simp add: sched_ok_def)
      hence "producer_inv ?s1" by (rule inv_cong[rotated 5, OF _ assms]) simp_all
      thus ?thesis using True False by (simp add: requestSend_def)
    next
      case no: False
      thus ?thesis using False assms by (auto simp: requestSend_def)
    qed
  qed
qed

lemma inv_runImmediate:
  assumes "producer_inv s"
  shows "producer_inv (runImmediate s)"
proof (cases "immediates s")
  case Nil
  then show ?thesis using assms by (simp add: runImmediate_def)
next
  case (Cons h rest)
  have i: "sched_ok s" using assms by (simp add: producer_inv_def)
  hence r: "rest = []" using Cons by (auto simp: sched_ok_def split: option.splits)
  let ?s1 = "s\<lparr>immediates := [], sendPending := None\<rparr>"
  have "sched_ok ?s1" by (simp add: sched_ok_def)
  hence "producer_inv ?s1" by (rule inv_cong[rotated 5, OF _ assms]) simp_all
  hence "producer_inv (sendPendingMessages ?s1)" by (rule inv_flush)
  moreover have "runImmediate s = sendPendingMessages ?s1"
    using Cons r by (simp add: runImmediate_def sendPendingMessages_eq all_boxcars_def)
  ultimately show ?thesis by simp
qed

lemma inv_connectCallback:
  assumes "producer_inv s"
  shows "producer_inv (connectCallback error data s)"
proof -
  have "sched_ok s" using assms by (simp add: producer_inv_def)
  hence "sched_ok (s\<lparr>connected := True\<rparr>)" by (simp add: sched_ok_def)
  hence "producer_inv (s\<lparr>connected := True\<rparr>)" by (rule inv_cong[rotated 5, OF _ assms]) simp_all
  thus ?thesis unfolding connectCallback_def by (rule inv_requestSend)
qed

lemma length_settle: "length (resolve h ds) = length ds" "length (reject e h ds) = length ds"
  by (simp_all add: resolve_def reject_def)

lemma inv_deliveryReport:
  assumes "producer_inv s"
  shows "producer_inv (deliveryReport err opaque s)"
  using assms
  by (cases err)
     (simp_all add: deliveryReport_def producer_inv_def queues_ok_def count_ok_def sched_ok_def
        log_ok_def all_boxcars_def length_settle)

lemma inv_send:
  assumes "producer_inv s"
  shows "producer_inv (snd (send m t d s))"
proof (cases "maxMessageSize s \<le> of_nat (length m)")
  case True
  then show ?thesis using assms by (simp add: send_reject)
next
  case False
  have "producer_inv (enqueue m t d s)" using assms False by (rule inv_enqueue)
  hence "producer_inv (requestSend (enqueue m t d s))" by (rule inv_requestSend)
  then show ?thesis using False by (simp add: send_accept)
qed

lemma inv_step: "producer_inv s \<Longrightarrow> producer_inv (step e s)"
  by (cases e) (simp_all add: inv_send inv_runImmediate inv_connectCallback inv_deliveryReport)

lemma inv_init: "producer_inv (RdkafkaProducer endpoint tp mx)"
  by (simp add: RdkafkaProducer_def producer_inv_def queues_ok_def count_ok_def sched_ok_def
        log_ok_def all_boxcars_def queued_def)

lemma inv_run: "producer_inv s \<Longrightarrow> producer_inv (run evs s)"
  by (induction evs arbitrary: s) (simp_all add: run_Cons inv_step, simp add: run_def)

subsection \<open>Order of the messages of one key\<close>

lemma record_of_boxcar:
  "record_key (boxcar_record tp b) = streamKey (tenantId b) (documentId b)"
  "record_pairs (boxcar_record tp b) = boxcar_pairs b"
  by (simp_all add: record_key_def record_pairs_def boxcar_pairs_def boxcar_record_def)

lemma filter_records_queue:
  assumes "\<forall>b \<in> set bs. streamKey (tenantId b) (documentId b) = k'"
  shows "concat (map record_pairs (filter (\<lambda>r. record_key r = k) (map (boxcar_record tp) bs))) =
         (if k' = k then concat (map boxcar_pairs bs) else [])"
  using assms by (induction bs) (auto simp: record_of_boxcar)

lemma filter_records_entries:
  assumes "\<forall>(k', bs) \<in> set m. \<forall>b \<in> set bs. streamKey (tenantId b) (documentId b) = k'"
  shows "concat (map record_pairs
           (filter (\<lambda>r. record_key r = k) (map (boxcar_record tp) (concat (map snd m))))) =
         concat (map boxcar_pairs (concat (map snd (filter (\<lambda>p. fst p = k) m))))"
  using assms
proof (induction m)
  case Nil
  then show ?case by simp
next
  case (Cons p m)
  obtain k' bs where p: "p = (k', bs)" by (cases p)
  have q: "\<forall>b \<in> set bs. streamKey (tenantId b) (documentId b) = k'" using Cons.prems p by simp
  have r: "\<forall>(k', bs) \<in> set m. \<forall>b \<in> set bs. streamKey (tenantId b) (documentId b) = k'"
    using Cons.prems by simp
  show ?case using Cons.IH[OF r] filter_records_queue[OF q, of k tp] by (simp add: p)
qed

lemma filter_key_distinct:
  "distinct (map fst m) \<Longrightarrow> concat (map snd (filter (\<lambda>p. fst p = k) m)) = Map_get m k"
proof (induction m)
  case Nil
  then show ?case by (simp add: Map_get_def)
next
  case (Cons p m)
  have "fst p = k \<Longrightarrow> filter (\<lambda>p. fst p = k) m = []"
  proof -
    assume "fst p = k"
    hence "k \<notin> fst ` set m" using Cons.prems by simp
    hence "\<forall>q \<in> set m. fst q \<noteq> k" by force
    thus ?thesis by (simp add: filter_empty_conv)
  qed
  moreover have "fst p = k \<Longrightarrow> Map_get (p # m) k = snd p" by (cases p) (simp add: Map_get_def)
  moreover have "fst p \<noteq> k \<Longrightarrow> Map_get (p # m) k = Map_get m k" by (cases p) (simp add: Map_get_def)
  ultimately show ?case using Cons by (cases "fst p = k") simp_all
qed

lemma queues_ok_keyed:
  "queues_ok s \<Longrightarrow>
   \<forall>(k', bs) \<in> set (messages s). \<forall>b \<in> set bs. streamKey (tenantId b) (documentId b) = k'"
  by (auto simp: queues_ok_def boxcar_ok_def)

lemma view_flush:
  assumes "queues_ok s"
  shows "view k (sendPendingMessages s) = view k s"
proof -
  have d: "distinct (map fst (messages s))" using assms by (simp add: queues_ok_def)
  have "concat (map record_pairs (filter (\<lambda>r. record_key r = k)
            (map (boxcar_record (topic s)) (all_boxcars s)))) =
        concat (map boxcar_pairs (Map_get (messages s) k))"
    unfolding all_boxcars_def
    by (simp only: filter_records_entries[OF queues_ok_keyed[OF assms]] filter_key_distinct[OF d])
  thus ?thesis by (simp add: view_def sendPendingMessages_eq Map_get_def)
qed

lemma view_requestSend:
  assumes "queues_ok s"
  shows "view k (requestSend s) = view k s"
proof (cases "connected s \<and> MaxBatchSize \<le> pendingMessageCount s")
  case True
  let ?s1 = "(clearImmediate (sendPending s) s)\<lparr>sendPending := None\<rparr>"
  have f: "produced ?s1 = produced s" "messages ?s1 = messages s"
          "maxMessageSize ?s1 = maxMessageSize s" "deferreds ?s1 = deferreds s"
    by (simp_all add: clearImmediate_def split: option.splits)
  have "queues_ok ?s1" using assms f by (simp add: queues_ok_def)
  hence "view k (sendPendingMessages ?s1) = view k ?s1" by (rule view_flush)
  also have "\<dots> = view k s" using f by (simp add: view_def)
  finally show ?thesis using True by (simp add: requestSend_def)
next
  case False
  then show ?thesis by (auto simp: requestSend_def view_def)
qed

lemma view_enqueue:
  "view k (enqueue m t d s) =
     view k s @ (if streamKey t d = k then [(m, handle_of m t d s)] else [])"
proof (cases "streamKey t d = k")
  case False
  then show ?thesis by (auto simp: view_def enqueue_fields enqueue_queue)
next
  case True
  let ?bs = "Map_get (messages s) k"
  show ?thesis
  proof (cases "?bs = [] \<or> maxMessageSize s < of_nat (size_b (last ?bs) + length m)")
    case fresh: True
    then show ?thesis using True
      by (auto simp: view_def enqueue_fields enqueue_queue handle_of_def Let_def boxcar_pairs_def)
  next
    case join: False
    hence ne: "?bs \<noteq> []" by simp
    have "concat (map boxcar_pairs ?bs) =
            concat (map boxcar_pairs (butlast ?bs @ [last ?bs]))" using ne by simp
    also have "\<dots> = concat (map boxcar_pairs (butlast ?bs)) @ boxcar_pairs (last ?bs)"
      by (simp only: map_append concat_append) simp
    finally have a: "concat (map boxcar_pairs ?bs) =
        concat (map boxcar_pairs (butlast ?bs)) @ boxcar_pairs (last ?bs)" .
    show ?thesis using True join
      by (simp add: view_def enqueue_fields enqueue_queue handle_of_def Let_def a)
         (simp add: boxcar_pairs_def)
  qed
qed

lemma view_send:
  assumes "queues_ok s"
  shows "view k (step (Send m t d) s) = view k s @ returned k [Send m t d] s"
proof (cases "maxMessageSize s \<le> of_nat (length m)")
  case True
  then show ?thesis by (simp add: send_reject)
next
  case False
  have "queues_ok (enqueue m t d s)" using assms False by (rule queues_ok_enqueue)
  hence "view k (requestSend (enqueue m t d s)) = view k (enqueue m t d s)"
    by (rule view_requestSend)
  thus ?thesis using False by (simp add: send_accept view_enqueue)
qed

lemma view_step:
  assumes "producer_inv s"
  shows "view k (step e s) = view k s @ returned k [e] s"
proof -
  have q: "queues_ok s" using assms by (simp add: producer_inv_def)
  show ?thesis
  proof (cases e)
    case (Send m t d)
    then show ?thesis using view_send[OF q] by simp
  next
    case Immediate
    have "view k (runImmediate s) = view k s"
    proof (cases "immediates s")
      case Nil
      then show ?thesis by (simp add: runImmediate_def)
    next
      case (Cons h rest)
      have "queues_ok (s\<lparr>immediates := rest\<rparr>)" using q by (simp add: queues_ok_def)
      hence "view k (sendPendingMessages (s\<lparr>immediates := rest\<rparr>)) = view k (s\<lparr>immediates := rest\<rparr>)"
        by (rule view_flush)
      thus ?thesis using Cons by (simp add: runImmediate_def view_def)
    qed
    then show ?thesis using Immediate by simp
  next
    case (Connected error data)
    have "queues_ok (s\<lparr>connected := True\<rparr>)" using q by (simp add: queues_ok_def)
    hence "view k (requestSend (s\<lparr>connected := True\<rparr>)) = view k (s\<lparr>connected := True\<rparr>)"
      by (rule view_requestSend)
    then show ?thesis using Connected by (simp add: connectCallback_def view_def)
  next
    case (Report err opaque)
    then show ?thesis by (cases err) (simp_all add: deliveryReport_def view_def)
  qed
qed

lemma returned_Cons: "returned k (e # evs) s = returned k [e] s @ returned k evs (step e s)"
  by (cases e) simp_all

lemma view_run:
  "producer_inv s \<Longrightarrow> view k (run evs s) = view k s @ returned k evs s"
proof (induction evs arbitrary: s)
  case Nil
  then show ?case by (simp add: run_def)
next
  case (Cons e evs)
  have "producer_inv (step e s)" using Cons.prems by (rule inv_step)
  hence "view k (run evs (step e s)) = view k (step e s) @ returned k evs (step e s)"
    by (rule Cons.IH)
  thus ?case using view_step[OF Cons.prems, of k e]
    by (simp only: run_Cons returned_Cons[of k e evs] append_assoc)
qed


subsection \<open>The scenario of the spec, step by step\<close>

lemmas eval_simps = requestSend_def runImmediate_def sendPendingMessages_eq
  connectCallback_def Map_get_def all_boxcars_def clearImmediate_def Let_def
  MaxBatchSize_not_le MaxBatchSize_not_0 enqueue_def send_accept send_reject handle_of_def
  boxcar_record_def

lemma scenario_connected:
  "run [Connected None data] (RdkafkaProducer endpoint tp (400 / 3)) =
   \<lparr> messages = [], connected = True, sendPending = Some 0, pendingMessageCount = 0,
     topic = tp, maxMessageSize = 100, deferreds = [], immediates = [0],
     nextImmediate = Suc 0, produced = [] \<rparr>"
  by (simp add: run_def RdkafkaProducer_def eval_simps)

lemma scenario_one:
  assumes "length m1 = 40"
  shows "run [Connected None data, Send m1 T D] (RdkafkaProducer endpoint tp (400 / 3)) =
   \<lparr> messages = [(streamKey T D,
        [\<lparr>deferred = 0, documentId = D, messages_b = [m1], size_b = 40, tenantId = T\<rparr>])],
     connected = True, sendPending = Some 0, pendingMessageCount = 1,
     topic = tp, maxMessageSize = 100, deferreds = [Pending], immediates = [0],
     nextImmediate = Suc 0, produced = [] \<rparr>"
  using run_snoc[of "[Connected None data]" "Send m1 T D" "RdkafkaProducer endpoint tp (400 / 3)"]
    assms
  by (simp only: scenario_connected append.simps) (simp add: eval_simps)

lemma scenario_two:
  assumes "length m1 = 40" "length m2 = 40"
  shows "run [Connected None data, Send m1 T D, Send m2 T D]
           (RdkafkaProducer endpoint tp (400 / 3)) =
   \<lparr> messages = [(streamKey T D,
        [\<lparr>deferred = 0, documentId = D, messages_b = [m1, m2], size_b = 80, tenantId = T\<rparr>])],
     connected = True, sendPending = Some 0, pendingMessageCount = 2,
     topic = tp, maxMessageSize = 100, deferreds = [Pending], immediates = [0],
     nextImmediate = Suc 0, produced = [] \<rparr>"
  using run_snoc[of "[Connected None data, Send m1 T D]" "Send m2 T D"
      "RdkafkaProducer endpoint tp (400 / 3)"] assms
  by (simp only: scenario_one append.simps) (simp add: eval_simps)

lemma scenario_three:
  assumes "length m1 = 40" "length m2 = 40" "length m3 = 40"
  shows "run [Connected None data, Send m1 T D, Send m2 T D, Send m3 T D]
           (RdkafkaProducer endpoint tp (400 / 3)) =
   \<lparr> messages = [(streamKey T D,
        [\<lparr>deferred = 0, documentId = D, messages_b = [m1, m2], size_b = 80, tenantId = T\<rparr>,
         \<lparr>deferred = 1, documentId = D, messages_b = [m3], size_b = 40, tenantId = T\<rparr>])],
     connected = True, sendPending = Some 0, pendingMessageCount = 3,
     topic = tp, maxMessageSize = 100, deferreds = [Pending, Pending], immediates = [0],
     nextImmediate = Suc 0, produced = [] \<rparr>"
  using run_snoc[of "[Connected None data, Send m1 T D, Send m2 T D]" "Send m3 T D"
      "RdkafkaProducer endpoint tp (400 / 3)"] assms
  by (simp only: scenario_two append.simps) (simp add: eval_simps)

lemma scenario_flushed:
  assumes "length m1 = 40" "length m2 = 40" "length m3 = 40"
  shows "run [Connected None data, Send m1 T D, Send m2 T D, Send m3 T D, Immediate]
           (RdkafkaProducer endpoint tp (400 / 3)) =
   \<lparr> messages = [], connected = True, sendPending = None, pendingMessageCount = 0,
     topic = tp, maxMessageSize = 100, deferreds = [Pending, Pending], immediates = [],
     nextImmediate = Suc 0,
     produced =
       [\<lparr>p_topic = tp, p_partition = None,
          p_message = \<lparr>contents = [m1, m2], documentId_m = D, tenantId_m = T,
                        type_m = ''boxcar''\<rparr>,
          p_key = D, p_opaque = 0\<rparr>,
        \<lparr>p_topic = tp, p_partition = None,
          p_message = \<lparr>contents = [m3], documentId_m = D, tenantId_m = T,
                        type_m = ''boxcar''\<rparr>,
          p_key = D, p_opaque = 1\<rparr>] \<rparr>"
  using run_snoc[of "[Connected None data, Send m1 T D, Send m2 T D, Send m3 T D]" "Immediate"
      "RdkafkaProducer endpoint tp (400 / 3)"] assms
  by (simp only: scenario_three append.simps) (simp add: eval_simps)

subsection \<open>The counter and the shape of the boxcars\<close>

lemma update_subset: "set (AList.update k v m) \<subseteq> insert (k, v) (set m)"
  by (induction m) auto

lemma Map_get_subset: "b \<in> set (Map_get m k) \<Longrightarrow> b \<in> set (concat (map snd m))"
proof (cases "map_of m k")
  case None
  assume "b \<in> set (Map_get m k)"
  thus ?thesis using None by (simp add: Map_get_def)
next
  case (Some bs)
  assume "b \<in> set (Map_get m k)"
  hence b: "b \<in> set bs" using Some by (simp add: Map_get_def)
  from Some have "(k, bs) \<in> set m" by (rule map_of_SomeD)
  thus ?thesis using b by force
qed

lemma inv_counter: "producer_inv s \<Longrightarrow> counter_inv s"
proof -
  assume a: "producer_inv s"
  hence c: "count_ok s" and q: "queues_ok s" by (simp_all add: producer_inv_def)
  have "\<And>b. b \<in> set (concat (map snd (messages s))) \<Longrightarrow> boxcar_shape b"
    using q by (auto simp: queues_ok_def boxcar_ok_def boxcar_shape_def)
  thus ?thesis using c by (simp add: counter_inv_def count_ok_def queued_def all_boxcars_def)
qed

lemma shape_enqueue_queue:
  assumes old: "\<And>b. b \<in> set (Map_get (messages s) (streamKey t d)) \<Longrightarrow> boxcar_shape b"
    and b: "b \<in> set (Map_get (messages (enqueue m t d s)) (streamKey t d))"
  shows "boxcar_shape b"
proof (cases "Map_get (messages s) (streamKey t d) = [] \<or>
    maxMessageSize s < of_nat (size_b (last (Map_get (messages s) (streamKey t d))) + length m)")
  case True
  hence "b \<in> set (Map_get (messages s) (streamKey t d)) \<or>
         b = \<lparr> deferred = length (deferreds s), documentId = d,
                          messages_b = [m], size_b = length m, tenantId = t \<rparr>"
    using b by (auto simp: enqueue_queue Let_def)
  thus ?thesis
  proof
    assume "b \<in> set (Map_get (messages s) (streamKey t d))"
    thus ?thesis by (rule old)
  next
    assume "b = \<lparr> deferred = length (deferreds s), documentId = d,
                          messages_b = [m], size_b = length m, tenantId = t \<rparr>"
    thus ?thesis by (simp add: boxcar_shape_def)
  qed
next
  case False
  let ?bs = "Map_get (messages s) (streamKey t d)"
  from False have ne: "?bs \<noteq> []" by simp
  have "Map_get (messages (enqueue m t d s)) (streamKey t d) =
          butlast ?bs @ [(last ?bs)\<lparr>messages_b := messages_b (last ?bs) @ [m],
                                     size_b := size_b (last ?bs) + length m\<rparr>]"
    using False by (simp add: enqueue_queue Let_def)
  hence "b \<in> set (butlast ?bs) \<or>
         b = (last ?bs)\<lparr>messages_b := messages_b (last ?bs) @ [m],
                         size_b := size_b (last ?bs) + length m\<rparr>"
    using b by auto
  thus ?thesis
  proof
    assume "b \<in> set (butlast ?bs)"
    hence "b \<in> set ?bs" by (rule in_set_butlastD)
    thus ?thesis by (rule old)
  next
    assume e: "b = (last ?bs)\<lparr>messages_b := messages_b (last ?bs) @ [m],
                         size_b := size_b (last ?bs) + length m\<rparr>"
    have "boxcar_shape (last ?bs)" using ne by (intro old) simp
    thus ?thesis using e by (simp add: boxcar_shape_def)
  qed
qed


lemma counter_inv_enqueue:
  assumes "counter_inv s"
  shows "counter_inv (enqueue m t d s)"
proof -
  let ?k = "streamKey t d" and ?s' = "enqueue m t d s"
  have c: "count_ok s"
    using assms by (simp add: counter_inv_def count_ok_def queued_def all_boxcars_def)
  have "\<forall>b \<in> set (concat (map snd (messages s))). boxcar_shape b"
    using assms unfolding counter_inv_def by (rule conjunct2)
  hence sh: "\<And>b. b \<in> set (concat (map snd (messages s))) \<Longrightarrow> boxcar_shape b"
    by (rule bspec)
  have old: "\<And>b. b \<in> set (Map_get (messages s) ?k) \<Longrightarrow> boxcar_shape b"
    by (rule sh, rule Map_get_subset)
  have "\<And>b. b \<in> set (concat (map snd (messages ?s'))) \<Longrightarrow> boxcar_shape b"
  proof -
    fix b assume "b \<in> set (concat (map snd (messages ?s')))"
    then obtain k bs where e: "(k, bs) \<in> set (messages ?s')" and b: "b \<in> set bs" by auto
    from e have "(k, bs) \<in> set (AList.update ?k (Map_get (messages ?s') ?k) (messages s))"
      by (subst (asm) enqueue_messages)
    hence "(k, bs) \<in> insert (?k, Map_get (messages ?s') ?k) (set (messages s))"
      using update_subset[of ?k "Map_get (messages ?s') ?k" "messages s"] by (rule subsetD[rotated])
    hence "bs = Map_get (messages ?s') ?k \<or> (k, bs) \<in> set (messages s)"
      by auto
    thus "boxcar_shape b"
    proof
      assume "bs = Map_get (messages ?s') ?k"
      hence "b \<in> set (Map_get (messages ?s') ?k)" using b by simp
      thus ?thesis using old by (rule shape_enqueue_queue[rotated])
    next
      assume "(k, bs) \<in> set (messages s)"
      hence "b \<in> set (concat (map snd (messages s)))" using b by force
      thus ?thesis by (rule sh)
    qed
  qed
  moreover have "count_ok ?s'" using c by (rule count_ok_enqueue)
  ultimately show ?thesis
    by (simp add: counter_inv_def count_ok_def queued_def all_boxcars_def)
qed

lemma counter_inv_flush: "counter_inv (sendPendingMessages s)"
  by (simp add: counter_inv_def sendPendingMessages_eq)

lemma counter_inv_requestSend:
  assumes "counter_inv s"
  shows "counter_inv (requestSend s)"
proof (cases "connected s \<and> MaxBatchSize \<le> pendingMessageCount s")
  case True
  then show ?thesis by (simp add: requestSend_def counter_inv_flush)
next
  case False
  have "messages (requestSend s) = messages s"
       "pendingMessageCount (requestSend s) = pendingMessageCount s"
    using False by (auto simp: requestSend_def)
  then show ?thesis using assms by (simp add: counter_inv_def)
qed

lemma counter_inv_send: "counter_inv s \<Longrightarrow> counter_inv (snd (send m t d s))"
  by (cases "maxMessageSize s \<le> of_nat (length m)")
     (simp_all add: send_reject send_accept counter_inv_requestSend counter_inv_enqueue)

subsection \<open>A \<open>send\<close> that does not reach the batch ceiling\<close>

lemma requestSend_idle:
  assumes "\<not> (connected s \<and> MaxBatchSize \<le> pendingMessageCount s)"
  shows "messages (requestSend s) = messages s"
    and "pendingMessageCount (requestSend s) = pendingMessageCount s"
    and "produced (requestSend s) = produced s"
  using assms by (auto simp: requestSend_def)

lemma requestSend_fields:
  "deferreds (requestSend s) = deferreds s"
  "connected (requestSend s) = connected s"
  "topic (requestSend s) = topic s"
  by (simp_all add: requestSend_def sendPendingMessages_eq clearImmediate_def
        split: option.splits)



subsection \<open>The two ways a message enters a queue\<close>

lemma inv_handles:
  assumes "producer_inv s"
  shows "\<forall>b \<in> set (concat (map snd (messages s))). deferred b < length (deferreds s)"
    and "\<forall>r \<in> set (produced s). p_opaque r < length (deferreds s)"
proof -
  have q: "queues_ok s" and l: "log_ok s" using assms by (simp_all add: producer_inv_def)
  show "\<forall>b \<in> set (concat (map snd (messages s))). deferred b < length (deferreds s)"
    using queued_handles[OF q] by (simp add: all_boxcars_def)
  show "\<forall>r \<in> set (produced s). p_opaque r < length (deferreds s)"
    using l by (simp add: log_ok_def)
qed

lemma requestSend_ceiling:
  assumes "connected s" and "MaxBatchSize \<le> pendingMessageCount s"
  shows "messages (requestSend s) = []"
    and "produced (requestSend s) =
           produced s @ map (boxcar_record (topic s)) (concat (map snd (messages s)))"
  using assms
  by (simp_all add: requestSend_def sendPendingMessages_eq all_boxcars_def clearImmediate_def
        split: option.splits)

lemma enqueue_placed:
  "messages (enqueue m t d s) =
     AList.update (streamKey t d)
       (if Map_get (messages s) (streamKey t d) = [] \<or>
           maxMessageSize s <
             of_nat (size_b (last (Map_get (messages s) (streamKey t d))) + length m)
        then Map_get (messages s) (streamKey t d) @
             [\<lparr> deferred = length (deferreds s), documentId = d, messages_b = [m],
                size_b = length m, tenantId = t \<rparr>]
        else butlast (Map_get (messages s) (streamKey t d)) @
             [(last (Map_get (messages s) (streamKey t d)))
                \<lparr>messages_b := messages_b (last (Map_get (messages s) (streamKey t d))) @ [m],
                  size_b := size_b (last (Map_get (messages s) (streamKey t d))) + length m\<rparr>])
       (messages s)"
  by (simp add: enqueue_def Let_def)

lemma send_placed:
  assumes a: "\<not> maxMessageSize s \<le> of_nat (length m)"
  shows "fst (send m t d s) = Inr (handle_of m t d s)"
    and "deferreds (snd (send m t d s)) = deferreds (enqueue m t d s)"
    and "\<not> (connected s \<and> MaxBatchSize \<le> Suc (pendingMessageCount s)) \<Longrightarrow>
           messages (snd (send m t d s)) = messages (enqueue m t d s) \<and>
           produced (snd (send m t d s)) = produced s"
    and "connected s \<and> MaxBatchSize \<le> Suc (pendingMessageCount s) \<Longrightarrow>
           messages (snd (send m t d s)) = [] \<and>
           produced (snd (send m t d s)) =
             produced s @
             map (boxcar_record (topic s)) (concat (map snd (messages (enqueue m t d s))))"
proof -
  show "fst (send m t d s) = Inr (handle_of m t d s)" using a by (simp add: send_accept)
  show "deferreds (snd (send m t d s)) = deferreds (enqueue m t d s)"
    using a by (simp add: send_accept requestSend_fields)
  show "messages (snd (send m t d s)) = messages (enqueue m t d s) \<and>
        produced (snd (send m t d s)) = produced s"
    if "\<not> (connected s \<and> MaxBatchSize \<le> Suc (pendingMessageCount s))"
  proof -
    have "\<not> (connected (enqueue m t d s) \<and>
              MaxBatchSize \<le> pendingMessageCount (enqueue m t d s))"
      using that by (simp add: enqueue_fields)
    thus ?thesis using a requestSend_idle(1,3)[of "enqueue m t d s"]
      by (simp add: send_accept enqueue_fields)
  qed
  show "messages (snd (send m t d s)) = [] \<and>
        produced (snd (send m t d s)) =
          produced s @
          map (boxcar_record (topic s)) (concat (map snd (messages (enqueue m t d s))))"
    if "connected s \<and> MaxBatchSize \<le> Suc (pendingMessageCount s)"
  proof -
    have "connected (enqueue m t d s)"
         "MaxBatchSize \<le> pendingMessageCount (enqueue m t d s)"
      using that by (simp_all add: enqueue_fields)
    thus ?thesis using a requestSend_ceiling[of "enqueue m t d s"]
      by (simp add: send_accept enqueue_fields)
  qed
qed

subsection \<open>Two tenants with one key, step by step\<close>

lemma collision_one:
  "run [Send ''x'' ''a/b'' ''c''] (RdkafkaProducer ''broker'' ''deltas'' 100) =
   \<lparr> messages = [(''a/b/c'',
        [\<lparr>deferred = 0, documentId = ''c'', messages_b = [''x''], size_b = 1,
           tenantId = ''a/b''\<rparr>])],
     connected = False, sendPending = None, pendingMessageCount = 1,
     topic = ''deltas'', maxMessageSize = 75, deferreds = [Pending], immediates = [],
     nextImmediate = 0, produced = [] \<rparr>"
  by (simp add: run_def RdkafkaProducer_def eval_simps streamKey_def)

lemma collision_two:
  "run [Send ''x'' ''a/b'' ''c'', Send ''y'' ''a'' ''b/c'']
     (RdkafkaProducer ''broker'' ''deltas'' 100) =
   \<lparr> messages = [(''a/b/c'',
        [\<lparr>deferred = 0, documentId = ''c'', messages_b = [''x'', ''y''], size_b = 2,
           tenantId = ''a/b''\<rparr>])],
     connected = False, sendPending = None, pendingMessageCount = 2,
     topic = ''deltas'', maxMessageSize = 75, deferreds = [Pending], immediates = [],
     nextImmediate = 0, produced = [] \<rparr>"
  using run_snoc[of "[Send ''x'' ''a/b'' ''c'']" "Send ''y'' ''a'' ''b/c''"
      "RdkafkaProducer ''broker'' ''deltas'' 100"]
  by (simp only: collision_one append.simps) (simp add: eval_simps streamKey_def)

lemma collision_connected:
  "run [Send ''x'' ''a/b'' ''c'', Send ''y'' ''a'' ''b/c'', Connected None ''ok'']
     (RdkafkaProducer ''broker'' ''deltas'' 100) =
   \<lparr> messages = [(''a/b/c'',
        [\<lparr>deferred = 0, documentId = ''c'', messages_b = [''x'', ''y''], size_b = 2,
           tenantId = ''a/b''\<rparr>])],
     connected = True, sendPending = Some 0, pendingMessageCount = 2,
     topic = ''deltas'', maxMessageSize = 75, deferreds = [Pending], immediates = [0],
     nextImmediate = Suc 0, produced = [] \<rparr>"
  using run_snoc[of "[Send ''x'' ''a/b'' ''c'', Send ''y'' ''a'' ''b/c'']" "Connected None ''ok''"
      "RdkafkaProducer ''broker'' ''deltas'' 100"]
  by (simp only: collision_two append.simps) (simp add: eval_simps)

lemma collision_flushed:
  "run [Send ''x'' ''a/b'' ''c'', Send ''y'' ''a'' ''b/c'', Connected None ''ok'', Immediate]
     (RdkafkaProducer ''broker'' ''deltas'' 100) =
   \<lparr> messages = [], connected = True, sendPending = None, pendingMessageCount = 0,
     topic = ''deltas'', maxMessageSize = 75, deferreds = [Pending], immediates = [],
     nextImmediate = Suc 0,
     produced =
       [\<lparr>p_topic = ''deltas'', p_partition = None,
          p_message = \<lparr>contents = [''x'', ''y''], documentId_m = ''c'', tenantId_m = ''a/b'',
                        type_m = ''boxcar''\<rparr>,
          p_key = ''c'', p_opaque = 0\<rparr>] \<rparr>"
  using run_snoc[of "[Send ''x'' ''a/b'' ''c'', Send ''y'' ''a'' ''b/c'', Connected None ''ok'']"
      "Immediate" "RdkafkaProducer ''broker'' ''deltas'' 100"]
  by (simp only: collision_connected append.simps) (simp add: eval_simps)

subsection \<open>Scheduling after the connection\<close>

lemma requestSend_scheduled:
  assumes "sched_ok s" and "connected s"
  shows "immediates (requestSend s) \<noteq> [] \<or> messages (requestSend s) = []"
proof (cases "MaxBatchSize \<le> pendingMessageCount s")
  case True
  then show ?thesis using assms(2) by (simp add: requestSend_def sendPendingMessages_eq)
next
  case False
  then show ?thesis using assms by (auto simp: requestSend_def sched_ok_def)
qed

subsection \<open>The pairs of a reachable state\<close>




lemma view_init: "view k (RdkafkaProducer endpoint tp mx) = []"
  by (simp add: view_def RdkafkaProducer_def Map_get_def)

lemma view_reachable:
  "view k (run evs (RdkafkaProducer endpoint tp mx)) = returned k evs (RdkafkaProducer endpoint tp mx)"
  using view_run[OF inv_init, of k evs endpoint tp mx] by (simp add: view_init)


subsection \<open>Calls of \<open>send\<close> between two turns of the event loop\<close>





section \<open>The properties\<close>

subsection \<open>Oversized messages\<close>



subsection \<open>The pending-message counter\<close>

text \<open>
  Claim C9. In every state a run can reach, the pending-message counter is the number of
  messages in all boxcars of all queues, no queued boxcar is empty, and the size field of
  each is the sum of the lengths of its messages. \<open>send\<close> and the flush each keep this, from
  any state where it holds.
\<close>

theorem counter_matches_queues:
  "counter_inv (run evs (RdkafkaProducer endpoint tp mx)) \<and>
   (counter_inv s \<longrightarrow>
      counter_inv (snd (send message t d s)) \<and> counter_inv (sendPendingMessages s))"
proof -
  have "counter_inv (run evs (RdkafkaProducer endpoint tp mx))"
    by (rule inv_counter, rule inv_run, rule inv_init)
  moreover have "counter_inv s \<Longrightarrow> counter_inv (snd (send message t d s))"
    by (rule counter_inv_send)
  ultimately show ?thesis by (simp add: counter_inv_flush)
qed

text \<open>After the three messages of the spec's scenario the counter is 3, and a fourth
  \<open>send\<close> keeps the invariant.\<close>

theorem counter_matches_queues_witness:
  "counter_inv (run [Connected None ''ok'', Send (replicate 40 CHR ''a'') ''T'' ''D'',
                     Send (replicate 40 CHR ''b'') ''T'' ''D'', Send (replicate 40 CHR ''c'') ''T'' ''D'']
                  (RdkafkaProducer ''broker'' ''deltas'' (400 / 3))) \<and>
   pendingMessageCount (run [Connected None ''ok'', Send (replicate 40 CHR ''a'') ''T'' ''D'',
                     Send (replicate 40 CHR ''b'') ''T'' ''D'', Send (replicate 40 CHR ''c'') ''T'' ''D'']
                  (RdkafkaProducer ''broker'' ''deltas'' (400 / 3))) = 3 \<and>
   counter_inv (snd (send ''next'' ''T'' ''D''
      (run [Connected None ''ok'', Send (replicate 40 CHR ''a'') ''T'' ''D'',
                     Send (replicate 40 CHR ''b'') ''T'' ''D'', Send (replicate 40 CHR ''c'') ''T'' ''D'']
                  (RdkafkaProducer ''broker'' ''deltas'' (400 / 3)))))"
proof -
  let ?evs = "[Connected None ''ok'', Send (replicate 40 CHR ''a'') ''T'' ''D'',
               Send (replicate 40 CHR ''b'') ''T'' ''D'', Send (replicate 40 CHR ''c'') ''T'' ''D'']"
  let ?s = "run ?evs (RdkafkaProducer ''broker'' ''deltas'' (400 / 3))"
  have c: "pendingMessageCount ?s = 3"
    by (subst scenario_three) simp_all
  show ?thesis
    using counter_matches_queues[where evs = ?evs and endpoint = "''broker''" and tp = "''deltas''"
        and mx = "400 / 3" and s = ?s and message = "''next''" and t = "''T''" and d = "''D''"] c
    by blast
qed

subsection \<open>The size of a boxcar\<close>



subsection \<open>The flush\<close>


subsection \<open>When a new boxcar is started\<close>

text \<open>
  Claim C5. Take a \<open>send\<close> that passes the size check. The queue of its key gets a new
  boxcar exactly when the queue was empty or the size of its last boxcar plus the length of
  the message exceeds the effective limit. In that case the new boxcar holds just the message
  and carries a handle created by this call, which is the one returned; otherwise the message
  is added to the last boxcar, whose handle is returned, and no handle is created. The queues
  so changed are the queues after the call, unless the call reaches the batch ceiling: then
  they are flushed at once and the map is empty. In a reachable state the handles of all
  queued boxcars and of all produced records are older than the next new one. With the limit
  100, three messages of length 40 for one key end up as a boxcar of size 80 with the first
  two and a boxcar of size 40 with the third, and the flush produces two records with these
  contents.
\<close>

theorem new_boxcar_iff:
  "(\<not> maxMessageSize s \<le> of_nat (length message) \<longrightarrow>
      (let k = streamKey t d;
           bs = Map_get (messages s) k;
           fresh = (bs = [] \<or> maxMessageSize s < of_nat (size_b (last bs) + length message));
           queue = (if fresh
                    then bs @ [\<lparr> deferred = length (deferreds s), documentId = d,
                                  messages_b = [message], size_b = length message,
                                  tenantId = t \<rparr>]
                    else butlast bs @
                         [(last bs)\<lparr>messages_b := messages_b (last bs) @ [message],
                                     size_b := size_b (last bs) + length message\<rparr>]);
           placed = AList.update k queue (messages s);
           s' = snd (send message t d s)
       in (length queue = Suc (length bs) \<longleftrightarrow> fresh) \<and>
          fst (send message t d s) =
            Inr (if fresh then length (deferreds s) else deferred (last bs)) \<and>
          deferreds s' = (if fresh then deferreds s @ [Pending] else deferreds s) \<and>
          (if connected s \<and> MaxBatchSize \<le> Suc (pendingMessageCount s)
           then messages s' = [] \<and>
                produced s' =
                  produced s @ map (boxcar_record (topic s)) (concat (map snd placed))
           else messages s' = placed \<and> produced s' = produced s \<and>
                Map_get (messages s') k = queue))) \<and>
   (let s0 = run evs (RdkafkaProducer endpoint tp mx)
    in (\<forall>b \<in> set (concat (map snd (messages s0))). deferred b < length (deferreds s0)) \<and>
       (\<forall>r \<in> set (produced s0). p_opaque r < length (deferreds s0))) \<and>
   (length m1 = 40 \<and> length m2 = 40 \<and> length m3 = 40 \<longrightarrow>
      maxMessageSize (RdkafkaProducer endpoint tp (400 / 3)) = 100 \<and>
      messages (run [Connected None data, Send m1 T D, Send m2 T D, Send m3 T D]
                  (RdkafkaProducer endpoint tp (400 / 3))) =
        [(streamKey T D,
          [\<lparr>deferred = 0, documentId = D, messages_b = [m1, m2], size_b = 80, tenantId = T\<rparr>,
           \<lparr>deferred = 1, documentId = D, messages_b = [m3], size_b = 40, tenantId = T\<rparr>])] \<and>
      map (\<lambda>r. contents (p_message r))
        (produced (run [Connected None data, Send m1 T D, Send m2 T D, Send m3 T D, Immediate]
                     (RdkafkaProducer endpoint tp (400 / 3)))) =
        [ [m1, m2], [m3]])"
proof -
  let ?k = "streamKey t d"
  let ?bs = "Map_get (messages s) ?k"
  let ?fresh = "?bs = [] \<or> maxMessageSize s < of_nat (size_b (last ?bs) + length message)"
  let ?queue = "if ?fresh
                    then ?bs @ [\<lparr> deferred = length (deferreds s), documentId = d,
                                  messages_b = [message], size_b = length message,
                                  tenantId = t \<rparr>]
                    else butlast ?bs @
                         [(last ?bs)\<lparr>messages_b := messages_b (last ?bs) @ [message],
                                     size_b := size_b (last ?bs) + length message\<rparr>]"
  let ?placed = "AList.update ?k ?queue (messages s)"
  let ?s' = "snd (send message t d s)"
  have general: "(length ?queue = Suc (length ?bs) \<longleftrightarrow> ?fresh) \<and>
          fst (send message t d s) =
            Inr (if ?fresh then length (deferreds s) else deferred (last ?bs)) \<and>
          deferreds ?s' = (if ?fresh then deferreds s @ [Pending] else deferreds s) \<and>
          (if connected s \<and> MaxBatchSize \<le> Suc (pendingMessageCount s)
           then messages ?s' = [] \<and>
                produced ?s' =
                  produced s @ map (boxcar_record (topic s)) (concat (map snd ?placed))
           else messages ?s' = ?placed \<and> produced ?s' = produced s \<and>
                Map_get (messages ?s') ?k = ?queue)"
    if a: "\<not> maxMessageSize s \<le> of_nat (length message)"
  proof -
    have p: "messages (enqueue message t d s) = ?placed" by (rule enqueue_placed)
    have l: "length ?queue = Suc (length ?bs) \<longleftrightarrow> ?fresh"
    proof (cases ?fresh)
      case True
      then show ?thesis by simp
    next
      case False
      hence "?bs \<noteq> []" by simp
      hence "length (butlast ?bs) + 1 = length ?bs" by simp
      thus ?thesis using False by simp
    qed
    have h: "fst (send message t d s) =
               Inr (if ?fresh then length (deferreds s) else deferred (last ?bs))"
      by (simp add: send_placed(1)[OF a] handle_of_def Let_def)
    have ds: "deferreds ?s' = (if ?fresh then deferreds s @ [Pending] else deferreds s)"
      by (simp add: send_placed(2)[OF a] enqueue_deferreds Let_def)
    have q: "Map_get ?placed ?k = ?queue" by (simp only: Map_get_update refl if_True)
    have f: "if connected s \<and> MaxBatchSize \<le> Suc (pendingMessageCount s)
           then messages ?s' = [] \<and>
                produced ?s' =
                  produced s @ map (boxcar_record (topic s)) (concat (map snd ?placed))
           else messages ?s' = ?placed \<and> produced ?s' = produced s \<and>
                Map_get (messages ?s') ?k = ?queue"
    proof (cases "connected s \<and> MaxBatchSize \<le> Suc (pendingMessageCount s)")
      case True
      show ?thesis
        unfolding if_P[OF True] using send_placed(4)[OF a True, of t d] by (simp only: p)
    next
      case False
      have m: "messages ?s' = ?placed" and pr: "produced ?s' = produced s"
        using send_placed(3)[OF a False, of t d] unfolding p by blast+
      have "Map_get (messages ?s') ?k = ?queue" by (subst m) (rule q)
      thus ?thesis unfolding if_not_P[OF False] using m pr by blast
    qed
    show ?thesis using l h ds f by blast
  qed
  have inv: "producer_inv (run evs (RdkafkaProducer endpoint tp mx))"
    by (rule inv_run, rule inv_init)
  have scen: "maxMessageSize (RdkafkaProducer endpoint tp (400 / 3)) = 100 \<and>
      messages (run [Connected None data, Send m1 T D, Send m2 T D, Send m3 T D]
                  (RdkafkaProducer endpoint tp (400 / 3))) =
        [(streamKey T D,
          [\<lparr>deferred = 0, documentId = D, messages_b = [m1, m2], size_b = 80, tenantId = T\<rparr>,
           \<lparr>deferred = 1, documentId = D, messages_b = [m3], size_b = 40, tenantId = T\<rparr>])] \<and>
      map (\<lambda>r. contents (p_message r))
        (produced (run [Connected None data, Send m1 T D, Send m2 T D, Send m3 T D, Immediate]
                     (RdkafkaProducer endpoint tp (400 / 3)))) =
        [ [m1, m2], [m3]]"
    if l: "length m1 = 40" "length m2 = 40" "length m3 = 40"
    by (simp add: scenario_three[OF l] scenario_flushed[OF l]) (simp add: RdkafkaProducer_def)
  show ?thesis
    unfolding Let_def using general inv_handles[OF inv] scen by blast
qed


text \<open>The second message of the scenario joins the first boxcar and gets its handle 0; the
  third starts a boxcar with the new handle 1; the flush produces two records.\<close>

theorem new_boxcar_iff_witness:
  "(let s = run [Connected None ''ok'', Send (replicate 40 CHR ''a'') ''T'' ''D'']
                (RdkafkaProducer ''broker'' ''deltas'' (400 / 3));
        m = replicate 40 CHR ''b''
    in \<not> maxMessageSize s \<le> of_nat (length m) \<and>
       \<not> (connected s \<and> MaxBatchSize \<le> Suc (pendingMessageCount s)) \<and>
       \<not> (Map_get (messages s) (streamKey ''T'' ''D'') = [] \<or>
          maxMessageSize s <
            of_nat (size_b (last (Map_get (messages s) (streamKey ''T'' ''D''))) + length m)) \<and>
       fst (send m ''T'' ''D'' s) = Inr 0 \<and>
       deferreds (snd (send m ''T'' ''D'' s)) = [Pending] \<and>
       map messages_b (Map_get (messages (snd (send m ''T'' ''D'' s))) (streamKey ''T'' ''D'')) =
         [ [replicate 40 CHR ''a'', replicate 40 CHR ''b'']]) \<and>
   (let s = run [Connected None ''ok'', Send (replicate 40 CHR ''a'') ''T'' ''D'',
                 Send (replicate 40 CHR ''b'') ''T'' ''D'']
                (RdkafkaProducer ''broker'' ''deltas'' (400 / 3));
        m = replicate 40 CHR ''c''
    in \<not> maxMessageSize s \<le> of_nat (length m) \<and>
       \<not> (connected s \<and> MaxBatchSize \<le> Suc (pendingMessageCount s)) \<and>
       (Map_get (messages s) (streamKey ''T'' ''D'') = [] \<or>
          maxMessageSize s <
            of_nat (size_b (last (Map_get (messages s) (streamKey ''T'' ''D''))) + length m)) \<and>
       fst (send m ''T'' ''D'' s) = Inr 1 \<and>
       deferreds (snd (send m ''T'' ''D'' s)) = [Pending, Pending] \<and>
       map messages_b (Map_get (messages (snd (send m ''T'' ''D'' s))) (streamKey ''T'' ''D'')) =
         [ [replicate 40 CHR ''a'', replicate 40 CHR ''b''], [replicate 40 CHR ''c'']]) \<and>
   (let s = run [Connected None ''ok'', Send (replicate 40 CHR ''a'') ''T'' ''D'',
                 Send (replicate 40 CHR ''b'') ''T'' ''D'', Send (replicate 40 CHR ''c'') ''T'' ''D'',
                 Immediate]
                (RdkafkaProducer ''broker'' ''deltas'' (400 / 3))
    in map (\<lambda>r. contents (p_message r)) (produced s) =
         [ [replicate 40 CHR ''a'', replicate 40 CHR ''b''], [replicate 40 CHR ''c'']] \<and>
       map p_opaque (produced s) = [0, 1] \<and>
       (\<forall>r \<in> set (produced s). p_opaque r < length (deferreds s)))"
proof -
  let ?p = "RdkafkaProducer ''broker'' ''deltas'' (400 / 3)"
  let ?a = "replicate 40 CHR ''a''" and ?b = "replicate 40 CHR ''b''"
  let ?c = "replicate 40 CHR ''c''"
  let ?k = "streamKey ''T'' ''D''"
  let ?s1 = "run [Connected None ''ok'', Send ?a ''T'' ''D''] ?p"
  let ?s2 = "run [Connected None ''ok'', Send ?a ''T'' ''D'', Send ?b ''T'' ''D''] ?p"
  let ?evs = "[Connected None ''ok'', Send ?a ''T'' ''D'', Send ?b ''T'' ''D'',
               Send ?c ''T'' ''D'', Immediate]"
  have e1: "?s1 = \<lparr> messages = [(?k,
        [\<lparr>deferred = 0, documentId = ''D'', messages_b = [?a], size_b = 40, tenantId = ''T''\<rparr>])],
     connected = True, sendPending = Some 0, pendingMessageCount = 1,
     topic = ''deltas'', maxMessageSize = 100, deferreds = [Pending], immediates = [0],
     nextImmediate = Suc 0, produced = [] \<rparr>"
    by (rule scenario_one) simp
  have e2: "?s2 = \<lparr> messages = [(?k,
        [\<lparr>deferred = 0, documentId = ''D'', messages_b = [?a, ?b], size_b = 80,
           tenantId = ''T''\<rparr>])],
     connected = True, sendPending = Some 0, pendingMessageCount = 2,
     topic = ''deltas'', maxMessageSize = 100, deferreds = [Pending], immediates = [0],
     nextImmediate = Suc 0, produced = [] \<rparr>"
    by (rule scenario_two) simp_all
  have h1: "\<not> maxMessageSize ?s1 \<le> of_nat (length ?b)" by (simp add: e1)
  have n1: "\<not> (connected ?s1 \<and> MaxBatchSize \<le> Suc (pendingMessageCount ?s1))"
    by (simp add: e1 MaxBatchSize_not_le)
  have j1: "\<not> (Map_get (messages ?s1) ?k = [] \<or>
          maxMessageSize ?s1 < of_nat (size_b (last (Map_get (messages ?s1) ?k)) + length ?b))"
    by (simp add: e1 Map_get_def)
  note i1 = new_boxcar_iff[where s = ?s1 and message = ?b and t = "''T''" and d = "''D''"
      and evs = ?evs and endpoint = "''broker''" and tp = "''deltas''" and mx = "400 / 3"
      and ?m1.0 = ?a and ?m2.0 = ?b and ?m3.0 = ?c and data = "''ok''" and T = "''T''"
      and D = "''D''", unfolded Let_def if_not_P[OF j1] if_not_P[OF n1]]
  have "fst (send ?b ''T'' ''D'' ?s1) = Inr (deferred (last (Map_get (messages ?s1) ?k))) \<and>
        deferreds (snd (send ?b ''T'' ''D'' ?s1)) = deferreds ?s1 \<and>
        Map_get (messages (snd (send ?b ''T'' ''D'' ?s1))) ?k =
          butlast (Map_get (messages ?s1) ?k) @
          [(last (Map_get (messages ?s1) ?k))
             \<lparr>messages_b := messages_b (last (Map_get (messages ?s1) ?k)) @ [?b],
               size_b := size_b (last (Map_get (messages ?s1) ?k)) + length ?b\<rparr>]"
    using i1 h1 by blast
  hence c1: "fst (send ?b ''T'' ''D'' ?s1) = Inr 0 \<and>
        deferreds (snd (send ?b ''T'' ''D'' ?s1)) = [Pending] \<and>
        map messages_b (Map_get (messages (snd (send ?b ''T'' ''D'' ?s1))) ?k) = [ [?a, ?b]]"
    by (simp add: e1 Map_get_def)
  have h2: "\<not> maxMessageSize ?s2 \<le> of_nat (length ?c)" by (simp add: e2)
  have n2: "\<not> (connected ?s2 \<and> MaxBatchSize \<le> Suc (pendingMessageCount ?s2))"
    by (simp add: e2 MaxBatchSize_not_le)
  have j2: "Map_get (messages ?s2) ?k = [] \<or>
          maxMessageSize ?s2 < of_nat (size_b (last (Map_get (messages ?s2) ?k)) + length ?c)"
    by (simp add: e2 Map_get_def)
  note i2 = new_boxcar_iff[where s = ?s2 and message = ?c and t = "''T''" and d = "''D''"
      and evs = ?evs and endpoint = "''broker''" and tp = "''deltas''" and mx = "400 / 3"
      and ?m1.0 = ?a and ?m2.0 = ?b and ?m3.0 = ?c and data = "''ok''" and T = "''T''"
      and D = "''D''", unfolded Let_def if_P[OF j2] if_not_P[OF n2]]
  have "fst (send ?c ''T'' ''D'' ?s2) = Inr (length (deferreds ?s2)) \<and>
        deferreds (snd (send ?c ''T'' ''D'' ?s2)) = deferreds ?s2 @ [Pending] \<and>
        Map_get (messages (snd (send ?c ''T'' ''D'' ?s2))) ?k =
          Map_get (messages ?s2) ?k @
          [\<lparr> deferred = length (deferreds ?s2), documentId = ''D'', messages_b = [?c],
             size_b = length ?c, tenantId = ''T'' \<rparr>]"
    using i2 h2 by blast
  hence c2: "fst (send ?c ''T'' ''D'' ?s2) = Inr 1 \<and>
        deferreds (snd (send ?c ''T'' ''D'' ?s2)) = [Pending, Pending] \<and>
        map messages_b (Map_get (messages (snd (send ?c ''T'' ''D'' ?s2))) ?k) =
          [ [?a, ?b], [?c]]"
    by (simp add: e2 Map_get_def)
  have p: "map (\<lambda>r. contents (p_message r)) (produced (run ?evs ?p)) = [ [?a, ?b], [?c]]"
    using i2 by simp
  have o: "map p_opaque (produced (run ?evs ?p)) = [0, 1]"
    by (subst scenario_flushed) simp_all
  have q: "\<forall>r \<in> set (produced (run ?evs ?p)). p_opaque r < length (deferreds (run ?evs ?p))"
    using i2 by blast
  show ?thesis
    unfolding Let_def using h1 n1 j1 c1 h2 n2 j2 c2 p o q by (intro conjI) blast+
qed

subsection \<open>The key of a stream\<close>

text \<open>
  Claim C8. The key of a stream is the tenant id, a slash and the document id, and two
  different pairs can have the same key: ("a/b", "c") and ("a", "b/c") both give "a/b/c".
  A message for each, sent in this order, lands in one boxcar of one queue, and the record
  produced for it names only the first pair: tenant "a/b", document "c".
\<close>

theorem streamKey_collision:
  "streamKey tenant document = tenant @ ''/'' @ document \<and>
   streamKey ''a/b'' ''c'' = streamKey ''a'' ''b/c'' \<and>
   (''a/b'', ''c'') \<noteq> (''a'', ''b/c'') \<and>
   messages (run [Send ''x'' ''a/b'' ''c'', Send ''y'' ''a'' ''b/c'']
               (RdkafkaProducer ''broker'' ''deltas'' 100)) =
     [(''a/b/c'',
       [\<lparr>deferred = 0, documentId = ''c'', messages_b = [''x'', ''y''], size_b = 2,
          tenantId = ''a/b''\<rparr>])] \<and>
   produced (run [Send ''x'' ''a/b'' ''c'', Send ''y'' ''a'' ''b/c'', Connected None ''ok'',
                  Immediate]
               (RdkafkaProducer ''broker'' ''deltas'' 100)) =
     [\<lparr>p_topic = ''deltas'', p_partition = None,
        p_message = \<lparr>contents = [''x'', ''y''], documentId_m = ''c'', tenantId_m = ''a/b'',
                      type_m = ''boxcar''\<rparr>,
        p_key = ''c'', p_opaque = 0\<rparr>]"
  by (simp add: collision_two collision_flushed) (simp add: streamKey_def)

subsection \<open>The connect callback\<close>

text \<open>
  Claim C10. Whatever error and data the connect callback is called with, it sets the
  connected flag and runs the flush scheduling on the state so changed; an error makes no
  difference to what it does. After it has run in a reachable state, a flush is scheduled or
  the queues have been flushed: the producer is not left waiting for a connection.
\<close>

theorem connect_callback_ignores_error:
  "connected (connectCallback error data s) \<and>
   connectCallback error data s = requestSend (s\<lparr>connected := True\<rparr>) \<and>
   connectCallback error data s = connectCallback None data' s \<and>
   (let s' = connectCallback error data (run evs (RdkafkaProducer endpoint tp mx))
    in immediates s' \<noteq> [] \<or> messages s' = [])"
proof -
  let ?s0 = "run evs (RdkafkaProducer endpoint tp mx)"
  have "producer_inv ?s0" by (rule inv_run, rule inv_init)
  hence "sched_ok ?s0" by (simp add: producer_inv_def)
  hence "sched_ok (?s0\<lparr>connected := True\<rparr>)" by (simp add: sched_ok_def)
  hence "immediates (requestSend (?s0\<lparr>connected := True\<rparr>)) \<noteq> [] \<or>
         messages (requestSend (?s0\<lparr>connected := True\<rparr>)) = []"
    by (rule requestSend_scheduled) simp
  thus ?thesis by (simp add: connectCallback_def requestSend_fields Let_def)
qed

text \<open>A message is queued before the connection; the callback reports a failure. The
  producer counts as connected and the flush is scheduled.\<close>

theorem connect_callback_ignores_error_witness:
  "(let s = run [Send ''x'' ''a/b'' ''c'', Send ''y'' ''a'' ''b/c'']
              (RdkafkaProducer ''broker'' ''deltas'' 100);
        s' = connectCallback (Some ''ECONNREFUSED'') ''none'' s
    in \<not> connected s \<and> immediates s = [] \<and> messages s \<noteq> [] \<and>
       connected s' \<and> immediates s' = [0] \<and> messages s' = messages s \<and>
       (immediates s' \<noteq> [] \<or> messages s' = []))"
proof -
  let ?evs = "[Send ''x'' ''a/b'' ''c'', Send ''y'' ''a'' ''b/c'']"
  let ?s = "run ?evs (RdkafkaProducer ''broker'' ''deltas'' 100)"
  let ?s' = "connectCallback (Some ''ECONNREFUSED'') ''none'' ?s"
  note inst = connect_callback_ignores_error[where s = ?s and error = "Some ''ECONNREFUSED''"
      and data = "''none''" and data' = "''ok''" and evs = ?evs and endpoint = "''broker''"
      and tp = "''deltas''" and mx = 100, unfolded Let_def]
  have c: "connected ?s'" using inst by (rule conjunct1)
  have d: "immediates ?s' \<noteq> [] \<or> messages ?s' = []" using inst by blast
  have b: "\<not> connected ?s \<and> immediates ?s = [] \<and> messages ?s \<noteq> []"
    by (simp add: collision_two)
  have "?s' = run (?evs @ [Connected None ''ok'']) (RdkafkaProducer ''broker'' ''deltas'' 100)"
    by (simp only: run_snoc step.simps) (simp add: connectCallback_def)
  hence a: "immediates ?s' = [0] \<and> messages ?s' = messages ?s"
    by (simp add: collision_connected collision_two)
  show ?thesis unfolding Let_def using a b c d by blast
qed

subsection \<open>Order within a key\<close>



subsection \<open>Delivery reports\<close>

text \<open>
  Claim C6. A delivery report for a pending handle rejects it with the error of the report
  when there is one and fulfils it otherwise, and touches nothing else; a handle that is
  already settled stays as it is. A message that joins the last boxcar of its key gets the
  handle of that boxcar. And over any run, the pairs of accepted message and returned handle
  of a key are exactly the pairs of message and correlation token of the records produced
  for the key, followed by the pairs of message and handle of the queued boxcars: the
  callers of all messages of one boxcar hold the one handle that the report for the record of
  that boxcar settles.
\<close>

theorem delivery_report_settles:
  "(h < length (deferreds s) \<and> deferreds s ! h = Pending \<longrightarrow>
      deliveryReport err h s =
        s\<lparr>deferreds := (deferreds s)[h := (case err of None \<Rightarrow> Fulfilled
                                              | Some e \<Rightarrow> Rejected e)]\<rparr>) \<and>
   (h < length (deferreds s) \<and> deferreds s ! h \<noteq> Pending \<longrightarrow> deliveryReport err h s = s) \<and>
   (\<not> maxMessageSize s \<le> of_nat (length message) \<and>
    Map_get (messages s) (streamKey t d) \<noteq> [] \<and>
    \<not> maxMessageSize s <
        of_nat (size_b (last (Map_get (messages s) (streamKey t d))) + length message) \<longrightarrow>
      fst (send message t d s) = Inr (deferred (last (Map_get (messages s) (streamKey t d))))) \<and>
   (let s0 = run evs (RdkafkaProducer endpoint tp mx)
    in concat (map (\<lambda>r. map (\<lambda>m. (m, p_opaque r)) (contents (p_message r)))
                 (filter (\<lambda>r. record_key r = k) (produced s0))) @
       concat (map (\<lambda>b. map (\<lambda>m. (m, deferred b)) (messages_b b))
                 (Map_get (messages s0) k)) =
       returned k evs (RdkafkaProducer endpoint tp mx))"
proof -
  have 1: "h < length (deferreds s) \<Longrightarrow> deferreds s ! h = Pending \<Longrightarrow>
      deliveryReport err h s =
        s\<lparr>deferreds := (deferreds s)[h := (case err of None \<Rightarrow> Fulfilled
                                              | Some e \<Rightarrow> Rejected e)]\<rparr>"
    by (cases err) (simp_all add: deliveryReport_def resolve_def reject_def)
  have 2: "deferreds s ! h \<noteq> Pending \<Longrightarrow> deliveryReport err h s = s"
    by (cases err) (simp_all add: deliveryReport_def resolve_def reject_def)
  have 3: "\<not> maxMessageSize s \<le> of_nat (length message) \<Longrightarrow>
    Map_get (messages s) (streamKey t d) \<noteq> [] \<Longrightarrow>
    \<not> maxMessageSize s <
        of_nat (size_b (last (Map_get (messages s) (streamKey t d))) + length message) \<Longrightarrow>
      fst (send message t d s) = Inr (deferred (last (Map_get (messages s) (streamKey t d))))"
    by (simp add: send_accept handle_of_def Let_def)
  have 4: "view k (run evs (RdkafkaProducer endpoint tp mx)) =
             returned k evs (RdkafkaProducer endpoint tp mx)"
    by (rule view_reachable)
  have r: "record_pairs = (\<lambda>r. map (\<lambda>m. (m, p_opaque r)) (contents (p_message r)))"
    by (rule ext) (simp add: record_pairs_def)
  have b: "boxcar_pairs = (\<lambda>b. map (\<lambda>m. (m, deferred b)) (messages_b b))"
    by (rule ext) (simp add: boxcar_pairs_def)
  show ?thesis
    using 1 2 3 4[unfolded view_def r b] unfolding Let_def by blast
qed

text \<open>The scenario of the spec: the report for the first record carries an error. The first
  two callers hold handle 0, which is rejected with that error; the third holds handle 1,
  which stays pending.\<close>

theorem delivery_report_settles_witness:
  "(let p = RdkafkaProducer ''broker'' ''deltas'' (400 / 3);
        evs = [Connected None ''ok'', Send (replicate 40 CHR ''a'') ''T'' ''D'',
               Send (replicate 40 CHR ''b'') ''T'' ''D'', Send (replicate 40 CHR ''c'') ''T'' ''D'',
               Immediate];
        s = run evs p
    in returned (streamKey ''T'' ''D'') evs p =
         [(replicate 40 CHR ''a'', 0), (replicate 40 CHR ''b'', 0), (replicate 40 CHR ''c'', 1)] \<and>
       map p_opaque (produced s) = [0, 1] \<and>
       0 < length (deferreds s) \<and> deferreds s ! 0 = Pending \<and>
       deferreds (deliveryReport (Some ''broker error'') 0 s) = [Rejected ''broker error'', Pending] \<and>
       deferreds (deliveryReport None 0 s) = [Fulfilled, Pending])"
proof -
  let ?p = "RdkafkaProducer ''broker'' ''deltas'' (400 / 3)"
  let ?a = "replicate 40 CHR ''a''" and ?b = "replicate 40 CHR ''b''"
  let ?c = "replicate 40 CHR ''c''"
  let ?evs = "[Connected None ''ok'', Send ?a ''T'' ''D'', Send ?b ''T'' ''D'',
               Send ?c ''T'' ''D'', Immediate]"
  let ?s = "run ?evs ?p"
  have e: "?s = \<lparr> messages = [], connected = True, sendPending = None, pendingMessageCount = 0,
     topic = ''deltas'', maxMessageSize = 100, deferreds = [Pending, Pending], immediates = [],
     nextImmediate = Suc 0,
     produced =
       [\<lparr>p_topic = ''deltas'', p_partition = None,
          p_message = \<lparr>contents = [?a, ?b], documentId_m = ''D'', tenantId_m = ''T'',
                        type_m = ''boxcar''\<rparr>,
          p_key = ''D'', p_opaque = 0\<rparr>,
        \<lparr>p_topic = ''deltas'', p_partition = None,
          p_message = \<lparr>contents = [?c], documentId_m = ''D'', tenantId_m = ''T'',
                        type_m = ''boxcar''\<rparr>,
          p_key = ''D'', p_opaque = 1\<rparr>] \<rparr>"
    by (rule scenario_flushed) simp_all
  note i1 = delivery_report_settles[where s = ?s and h = 0 and err = "Some ''broker error''"
      and evs = ?evs and endpoint = "''broker''" and tp = "''deltas''" and mx = "400 / 3"
      and k = "streamKey ''T'' ''D''", unfolded Let_def]
  note i2 = delivery_report_settles[where s = ?s and h = 0 and err = None
      and evs = ?evs and endpoint = "''broker''" and tp = "''deltas''" and mx = "400 / 3"
      and k = "streamKey ''T'' ''D''", unfolded Let_def]
  have h: "0 < length (deferreds ?s) \<and> deferreds ?s ! 0 = Pending" by (simp add: e)
  have "returned (streamKey ''T'' ''D'') ?evs ?p =
      concat (map (\<lambda>r. map (\<lambda>m. (m, p_opaque r)) (contents (p_message r)))
                 (filter (\<lambda>r. record_key r = streamKey ''T'' ''D'') (produced ?s))) @
       concat (map (\<lambda>b. map (\<lambda>m. (m, deferred b)) (messages_b b))
                 (Map_get (messages ?s) (streamKey ''T'' ''D'')))"
    using i1 by simp
  hence r: "returned (streamKey ''T'' ''D'') ?evs ?p = [(?a, 0), (?b, 0), (?c, 1)]"
    by (simp add: e record_key_def Map_get_def)
  have "deliveryReport (Some ''broker error'') 0 ?s =
        ?s\<lparr>deferreds := (deferreds ?s)[0 := Rejected ''broker error'']\<rparr>"
    using i1 h by simp
  hence d1: "deferreds (deliveryReport (Some ''broker error'') 0 ?s) =
             [Rejected ''broker error'', Pending]"
    by (simp add: e)
  have "deliveryReport None 0 ?s = ?s\<lparr>deferreds := (deferreds ?s)[0 := Fulfilled]\<rparr>"
    using i2 h by simp
  hence d2: "deferreds (deliveryReport None 0 ?s) = [Fulfilled, Pending]"
    by (simp add: e)
  have o: "map p_opaque (produced ?s) = [0, 1]" by (simp add: e)
  show ?thesis unfolding Let_def using r o h d1 d2 by blast
qed

subsection \<open>One flush for many calls\<close>



end
